theory Spec2Isabelle
  imports Complex_Main
begin

section \<open>JavaScript values\<close>

text \<open>
  The front end is JavaScript. The values that flow through the code modelled here are
  strings, numbers, \<open>undefined\<close>, \<open>NaN\<close> and, through the prototype chain of an object
  literal, built-in objects of the runtime (\<open>Builtin\<close>, named by what they are).
  Numbers are IEEE doubles in the source and exact reals here; the integers of the data
  model and their products are the same in both.

  A field of a backend payload is typed as the backend contract types it (a string, a
  number, a list) and is \<open>None\<close> when the payload does not carry it, which JavaScript
  reads as \<open>undefined\<close>.
\<close>

datatype jsval = Undefined | NaN | Num real | Str string | Builtin string

datatype js_error = TypeError

fun truthy :: "jsval \<Rightarrow> bool" where
  "truthy Undefined = False"
| "truthy NaN = False"
| "truthy (Num x) = (x \<noteq> 0)"
| "truthy (Str s) = (s \<noteq> [])"
| "truthy (Builtin b) = True"

text \<open>\<open>a || b\<close>\<close>

definition js_or :: "jsval \<Rightarrow> jsval \<Rightarrow> jsval" where
  "js_or a b = (if truthy a then a else b)"

text \<open>Reading a string field and a number field of a payload.\<close>

fun of_str :: "string option \<Rightarrow> jsval" where
  "of_str None = Undefined"
| "of_str (Some s) = Str s"

fun of_num :: "real option \<Rightarrow> jsval" where
  "of_num None = Undefined"
| "of_num (Some x) = Num x"

text \<open>
  Arithmetic on number fields: an absent operand converts to \<open>NaN\<close>, and \<open>NaN\<close>
  propagates. \<open>None\<close> stands for \<open>NaN\<close> in the result.
\<close>

fun times :: "real option \<Rightarrow> real option \<Rightarrow> real option" where
  "times (Some x) (Some y) = Some (x * y)"
| "times _ _ = None"

fun Math_round :: "real option \<Rightarrow> real option" where
  "Math_round (Some x) = Some (of_int \<lfloor>x + 1 / 2\<rfloor>)"
| "Math_round None = None"

fun number :: "real option \<Rightarrow> jsval" where
  "number None = NaN"
| "number (Some x) = Num x"

text \<open>A string or \<open>undefined\<close> used as a property key, and inside a template literal.\<close>

fun to_key :: "string option \<Rightarrow> string" where
  "to_key None = ''undefined''"
| "to_key (Some s) = s"

subsection \<open>Object literals\<close>

text \<open>
  \<open>obj[key]\<close> on an object literal finds the literal's own property, and otherwise
  what the key names on \<open>Object.prototype\<close>, which every object literal inherits from.
\<close>

definition Object_prototype :: "(string \<times> jsval) list" where
  "Object_prototype =
    [(''constructor'', Builtin ''Object''),
     (''__defineGetter__'', Builtin ''Object.prototype.__defineGetter__''),
     (''__defineSetter__'', Builtin ''Object.prototype.__defineSetter__''),
     (''hasOwnProperty'', Builtin ''Object.prototype.hasOwnProperty''),
     (''__lookupGetter__'', Builtin ''Object.prototype.__lookupGetter__''),
     (''__lookupSetter__'', Builtin ''Object.prototype.__lookupSetter__''),
     (''isPrototypeOf'', Builtin ''Object.prototype.isPrototypeOf''),
     (''propertyIsEnumerable'', Builtin ''Object.prototype.propertyIsEnumerable''),
     (''toString'', Builtin ''Object.prototype.toString''),
     (''valueOf'', Builtin ''Object.prototype.valueOf''),
     (''__proto__'', Builtin ''Object.prototype''),
     (''toLocaleString'', Builtin ''Object.prototype.toLocaleString'')]"

datatype 'a property = Own 'a | Inherited jsval | Absent

definition obj_get :: "(string \<times> 'a) list \<Rightarrow> string \<Rightarrow> 'a property" where
  "obj_get literal key =
    (case map_of literal key of
       Some v \<Rightarrow> Own v
     | None \<Rightarrow>
        (case map_of Object_prototype key of
           Some b \<Rightarrow> Inherited b
         | None \<Rightarrow> Absent))"

text \<open>The value read from a literal whose own values are strings.\<close>

fun str_val :: "string property \<Rightarrow> jsval" where
  "str_val (Own s) = Str s"
| "str_val (Inherited b) = b"
| "str_val Absent = Undefined"

subsection \<open>Strings\<close>

text \<open>
  \<open>toLowerCase\<close> on the ASCII letters; every other character is left as it is.
\<close>

definition lower_char :: "char \<Rightarrow> char" where
  "lower_char c =
    (let n = (of_char c :: nat) in if 65 \<le> n \<and> n \<le> 90 then char_of (n + 32) else c)"

definition toLowerCase :: "string \<Rightarrow> string" where
  "toLowerCase s = map lower_char s"

text \<open>\<open>text.includes(term)\<close>: \<open>term\<close> occurs in \<open>text\<close> as a substring.\<close>

definition startsWith :: "string \<Rightarrow> string \<Rightarrow> bool" where
  "startsWith text term = (take (length term) text = term)"

fun str_includes :: "string \<Rightarrow> string \<Rightarrow> bool" where
  "str_includes [] term = (term = [])"
| "str_includes (c # cs) term = (startsWith (c # cs) term \<or> str_includes cs term)"

text \<open>A natural number as the decimal string a template literal prints.\<close>

definition digit :: "nat \<Rightarrow> char" where
  "digit d = char_of (48 + d)"

fun decimal :: "nat \<Rightarrow> string" where
  "decimal n = (if n < 10 then [digit n] else decimal (n div 10) @ [digit (n mod 10)])"

declare decimal.simps [simp del]

section \<open>Backend payloads and view-models\<close>

record observation =
  site :: string
  potential :: string
  otype :: string
  o_description :: "string option"

record hazard =
  h_description :: "string option"
  taxonomy_ref :: "string option"
  h_confidence :: "real option"

record scored_hazard =
  sh_severity :: "real option"
  sh_likelihood :: "real option"
  rpn :: "real option"
  sh_priority :: "string option"

record task =
  t_title :: "string option"
  t_description :: "string option"
  control_type :: "string option"
  responsible_role :: "string option"
  duration_minutes :: "real option"
  material_requirements :: "string list option"

record action_plan =
  plan_id :: "string option"
  standards_refs :: "string list option"
  cost_estimate :: "real option"
  lead_time_days :: "real option"
  tasks :: "task list option"

record pipeline_result =
  hazards :: "hazard list option"
  scored_hazards :: "scored_hazard list option"
  action_plans :: "action_plan list option"

text \<open>The view-models of the three stages.\<close>

record risk_data =
  rd_hazard :: jsval
  rd_category :: jsval
  rd_keywords :: "string list"
  rd_confidence :: jsval

record score_data =
  sd_severity :: jsval
  sd_likelihood :: jsval
  sd_riskScore :: jsval
  sd_category :: jsval
  sd_color :: jsval

record action_item =
  a_id :: jsval
  a_title :: "string option"
  a_description :: "string option"
  a_oshaCode :: jsval
  a_priority :: jsval
  a_icon :: jsval
  a_controlType :: "string option"
  a_responsibleRole :: "string option"
  a_durationMinutes :: "real option"
  a_materials :: "string list option"

section \<open>Transformation layer (services/api)\<close>

definition commonSafetyTerms :: "string list" where
  "commonSafetyTerms =
    [''scaffolding'', ''fall'', ''falling'', ''slip'', ''trip'', ''electrical'', ''chemical'',
     ''fire'', ''machinery'', ''equipment'', ''guard'', ''barrier'', ''harness'', ''ppe'',
     ''hazard'', ''unsafe'', ''exposed'', ''unprotected'', ''damaged'', ''broken'']"

text \<open>
  \<open>extractKeywords\<close> of the transformation layer. \<open>found.slice(0, e)\<close> is
  \<open>take e found\<close>.
\<close>

definition extractKeywords :: "string option \<Rightarrow> string option \<Rightarrow> string list" where
  "extractKeywords hazardDesc observationDesc =
    (let text = toLowerCase (to_key hazardDesc @ '' '' @ to_key observationDesc);
         found = filter (\<lambda>term. str_includes text term) commonSafetyTerms
     in take (min 5 (max 3 (length found))) found)"

definition taxonomy_categoryMap :: "(string \<times> string) list" where
  "taxonomy_categoryMap =
    [(''HAZ-FALL-001'', ''Fall Protection / Scaffolding''),
     (''HAZ-FALL-002'', ''Slip, Trip & Fall''),
     (''HAZ-ELEC-001'', ''Electrical Safety''),
     (''HAZ-ELEC-002'', ''Arc Flash / Shock''),
     (''HAZ-CHEM-001'', ''Chemical Exposure''),
     (''HAZ-CHEM-002'', ''Toxic Substances''),
     (''HAZ-MECH-001'', ''Struck By / Caught In''),
     (''HAZ-MECH-002'', ''Machinery Safety''),
     (''HAZ-ERGO-001'', ''Ergonomic / Manual Handling''),
     (''HAZ-ERGO-002'', ''Repetitive Motion''),
     (''HAZ-FIRE-001'', ''Fire / Explosion''),
     (''HAZ-FIRE-002'', ''Hot Work''),
     (''HAZ-GEN-001'', ''General Safety''),
     (''HAZ-GEN-002'', ''Housekeeping'')]"

definition mapTaxonomyToCategory :: "string option \<Rightarrow> jsval" where
  "mapTaxonomyToCategory taxonomyRef =
    js_or (str_val (obj_get taxonomy_categoryMap (to_key taxonomyRef))) (Str ''General Safety'')"

definition transformHazardToRiskData :: "hazard \<Rightarrow> observation \<Rightarrow> risk_data" where
  "transformHazardToRiskData hz obs =
    (let keywords = extractKeywords (h_description hz) (o_description obs);
         category = mapTaxonomyToCategory (taxonomy_ref hz)
     in \<lparr> rd_hazard = of_str (h_description hz),
          rd_category = category,
          rd_keywords = keywords,
          rd_confidence = number (Math_round (times (h_confidence hz) (Some 100))) \<rparr>)"

definition priority_categoryMap :: "(string \<times> (string \<times> string)) list" where
  "priority_categoryMap =
    [(''CRITICAL'', (''Critical'', ''red'')),
     (''HIGH'', (''High'', ''orange'')),
     (''MEDIUM'', (''Medium'', ''yellow'')),
     (''LOW'', (''Low'', ''green''))]"

text \<open>
  \<open>categoryMap[priority] || categoryMap['MEDIUM']\<close>: an own entry and an inherited
  built-in are both truthy.
\<close>

fun prop_or :: "'a property \<Rightarrow> 'a property \<Rightarrow> 'a property" where
  "prop_or Absent q = q"
| "prop_or p q = p"

text \<open>
  \<open>mapping.category\<close> and \<open>mapping.color\<close>. No built-in of \<open>Object_prototype\<close> has
  a property of either name. Reading a property of \<open>undefined\<close> raises.
\<close>

fun member_category :: "(string \<times> string) property \<Rightarrow> js_error + jsval" where
  "member_category (Own e) = Inr (Str (fst e))"
| "member_category (Inherited b) = Inr Undefined"
| "member_category Absent = Inl TypeError"

fun member_color :: "(string \<times> string) property \<Rightarrow> js_error + jsval" where
  "member_color (Own e) = Inr (Str (snd e))"
| "member_color (Inherited b) = Inr Undefined"
| "member_color Absent = Inl TypeError"

definition transformScoredHazardToScoreData :: "scored_hazard \<Rightarrow> js_error + score_data" where
  "transformScoredHazardToScoreData scoredHazard =
    (let mapping = prop_or (obj_get priority_categoryMap (to_key (sh_priority scoredHazard)))
                           (obj_get priority_categoryMap ''MEDIUM'')
     in case member_category mapping of
          Inl e \<Rightarrow> Inl e
        | Inr cat \<Rightarrow>
           (case member_color mapping of
              Inl e \<Rightarrow> Inl e
            | Inr col \<Rightarrow>
               Inr \<lparr> sd_severity = of_num (sh_severity scoredHazard),
                     sd_likelihood = of_num (sh_likelihood scoredHazard),
                     sd_riskScore = of_num (rpn scoredHazard),
                     sd_category = cat,
                     sd_color = col \<rparr>))"

definition priorityMap :: "(string \<times> string) list" where
  "priorityMap =
    [(''ELIMINATION'', ''Immediate''),
     (''SUBSTITUTION'', ''Immediate''),
     (''ENGINEERING'', ''Before Next Shift''),
     (''ADMINISTRATIVE'', ''Daily''),
     (''PPE'', ''Before Next Shift'')]"

text \<open>
  \<open>actionPlan.standards_refs[0] || 'OSHA General Duty'\<close>: indexing \<open>undefined\<close>
  raises, an empty list gives \<open>undefined\<close> at index 0.
\<close>

fun first_standard :: "string list option \<Rightarrow> js_error + jsval" where
  "first_standard None = Inl TypeError"
| "first_standard (Some []) = Inr (js_or Undefined (Str ''OSHA General Duty''))"
| "first_standard (Some (r # rs)) = Inr (js_or (Str r) (Str ''OSHA General Duty''))"

text \<open>The callback of \<open>tasks.map\<close>, at the task and its index.\<close>

definition action_of_task :: "action_plan \<Rightarrow> task \<Rightarrow> nat \<Rightarrow> js_error + action_item" where
  "action_of_task actionPlan tk index =
    (case first_standard (standards_refs actionPlan) of
       Inl e \<Rightarrow> Inl e
     | Inr osha \<Rightarrow>
        Inr \<lparr> a_id = Num (real (index + 1)),
              a_title = t_title tk,
              a_description = t_description tk,
              a_oshaCode = osha,
              a_priority = js_or (str_val (obj_get priorityMap (to_key (control_type tk))))
                                 (Str ''Daily''),
              a_icon = Undefined,
              a_controlType = control_type tk,
              a_responsibleRole = responsible_role tk,
              a_durationMinutes = duration_minutes tk,
              a_materials = material_requirements tk \<rparr>)"

text \<open>\<open>xs.map(f)\<close> with a callback that may raise: the first exception ends the loop.\<close>

fun map_index :: "('a \<Rightarrow> nat \<Rightarrow> js_error + 'b) \<Rightarrow> 'a list \<Rightarrow> nat \<Rightarrow> js_error + 'b list" where
  "map_index f [] i = Inr []"
| "map_index f (x # xs) i =
    (case f x i of
       Inl e \<Rightarrow> Inl e
     | Inr y \<Rightarrow> (case map_index f xs (i + 1) of Inl e \<Rightarrow> Inl e | Inr ys \<Rightarrow> Inr (y # ys)))"

definition transformActionPlanToActions :: "action_plan \<Rightarrow> js_error + action_item list" where
  "transformActionPlanToActions actionPlan =
    (case tasks actionPlan of
       None \<Rightarrow> Inl TypeError
     | Some ts \<Rightarrow> map_index (action_of_task actionPlan) ts 0)"

text \<open>\<open>mapControlTypeToPriority\<close> of the Action Planner, over the same table.\<close>

definition mapControlTypeToPriority :: "string option \<Rightarrow> jsval" where
  "mapControlTypeToPriority controlType =
    js_or (str_val (obj_get priorityMap (to_key controlType))) (Str ''Daily'')"

section \<open>Results the Stage Animators compute\<close>

subsection \<open>Risk Analyzer\<close>

text \<open>
  The Risk Analyzer has helpers of its own, under the names of the transformation
  layer's: \<open>ra_\<close> marks the component's.
\<close>

definition ra_mapTaxonomyToCategory :: "string option \<Rightarrow> jsval" where
  "ra_mapTaxonomyToCategory taxonomyRef =
    js_or (str_val (obj_get taxonomy_categoryMap (to_key taxonomyRef))) (Str ''General Safety'')"

text \<open>\<open>s || ''\<close> inside a template literal.\<close>

fun or_empty :: "string option \<Rightarrow> string" where
  "or_empty None = []"
| "or_empty (Some s) = s"

definition ra_extractKeywords :: "string option \<Rightarrow> string option \<Rightarrow> string list" where
  "ra_extractKeywords hazardDesc observationDesc =
    (let text = toLowerCase (or_empty hazardDesc @ '' '' @ or_empty observationDesc);
         found = filter (\<lambda>term. str_includes text term) commonSafetyTerms
     in if length found > 0 then take 5 found else [''safety'', ''hazard'', ''risk''])"

text \<open>\<open>x || d\<close> on a number field: an absent number and 0 give the default.\<close>

fun num_or :: "real option \<Rightarrow> real \<Rightarrow> real" where
  "num_or None d = d"
| "num_or (Some x) d = (if x \<noteq> 0 then x else d)"

text \<open>\<open>observation?.description\<close>\<close>

fun description_of :: "observation option \<Rightarrow> string option" where
  "description_of None = None"
| "description_of (Some obs) = o_description obs"

definition analysisResult :: "hazard option \<Rightarrow> observation option \<Rightarrow> risk_data" where
  "analysisResult apiData obs =
    (case apiData of
       Some a \<Rightarrow>
        \<lparr> rd_hazard = js_or (of_str (h_description a)) (Str ''Hazard detected from observation''),
          rd_category = ra_mapTaxonomyToCategory (taxonomy_ref a),
          rd_keywords = ra_extractKeywords (h_description a) (description_of obs),
          rd_confidence =
            number (Math_round (times (Some (num_or (h_confidence a) (85 / 100))) (Some 100))) \<rparr>
     | None \<Rightarrow>
        \<lparr> rd_hazard = Str ''Slipping hazard due to unstable scaffolding board'',
          rd_category = Str ''Fall Protection / Scaffolding'',
          rd_keywords = [''scaffolding'', ''slipped'', ''falling''],
          rd_confidence = Num 94 \<rparr>)"

subsection \<open>Score Manager\<close>

definition mapPriorityToCategory :: "string option \<Rightarrow> (string \<times> string) property" where
  "mapPriorityToCategory priority =
    prop_or (obj_get priority_categoryMap (to_key priority))
            (obj_get priority_categoryMap ''MEDIUM'')"

definition scoreResult :: "scored_hazard option \<Rightarrow> js_error + score_data" where
  "scoreResult apiData =
    (case apiData of
       Some a \<Rightarrow>
        (case member_category (mapPriorityToCategory (sh_priority a)) of
           Inl e \<Rightarrow> Inl e
         | Inr cat \<Rightarrow>
            (case member_color (mapPriorityToCategory (sh_priority a)) of
               Inl e \<Rightarrow> Inl e
             | Inr col \<Rightarrow>
                Inr \<lparr> sd_severity = Num (num_or (sh_severity a) 4),
                      sd_likelihood = Num (num_or (sh_likelihood a) 3),
                      sd_riskScore =
                        js_or (of_num (rpn a)) (number (times (sh_severity a) (sh_likelihood a))),
                      sd_category = cat,
                      sd_color = col \<rparr>))
     | None \<Rightarrow>
        Inr \<lparr> sd_severity = Num 4,
              sd_likelihood = Num 3,
              sd_riskScore = Num 12,
              sd_category = Str ''High'',
              sd_color = Str ''orange'' \<rparr>)"

subsection \<open>Action Planner\<close>

text \<open>
  An icon is a component imported from the icon library, a truthy object the program does
  not build itself: \<open>Builtin\<close> under the component's name.
\<close>

definition iconMap :: "(string \<times> string) list" where
  "iconMap =
    [(''ELIMINATION'', ''Hammer''),
     (''SUBSTITUTION'', ''Hammer''),
     (''ENGINEERING'', ''Wrench''),
     (''ADMINISTRATIVE'', ''FileText''),
     (''PPE'', ''Cog'')]"

fun icon_val :: "string property \<Rightarrow> jsval" where
  "icon_val (Own n) = Builtin n"
| "icon_val (Inherited b) = b"
| "icon_val Absent = Undefined"

definition getIconForControlType :: "string option \<Rightarrow> jsval" where
  "getIconForControlType controlType =
    js_or (icon_val (obj_get iconMap (to_key controlType))) (Builtin ''Cog'')"

definition defaultActionItems :: "action_item list" where
  "defaultActionItems =
    [\<lparr> a_id = Num 1,
       a_title = Some ''Install guardrails on scaffolding platform'',
       a_description =
         Some ''Add standard guardrails (42\" top rail, 21\" mid rail) to all open sides'',
       a_oshaCode = Str ''OSHA 1926.451(g)(1)'',
       a_priority = Str ''Immediate'',
       a_icon = Builtin ''Hammer'',
       a_controlType = Some ''ENGINEERING'',
       a_responsibleRole = Some ''safety_engineer'',
       a_durationMinutes = Some 120,
       a_materials = Some [''guardrails'', ''fixings''] \<rparr>,
     \<lparr> a_id = Num 2,
       a_title = Some ''Perform daily stability check'',
       a_description =
         Some ''Implement pre-shift inspection protocol for all scaffolding components'',
       a_oshaCode = Str ''OSHA 1926.451(f)(3)'',
       a_priority = Str ''Daily'',
       a_icon = Builtin ''FileText'',
       a_controlType = Some ''ADMINISTRATIVE'',
       a_responsibleRole = Some ''supervisor'',
       a_durationMinutes = Some 30,
       a_materials = Some [''inspection_checklist''] \<rparr>,
     \<lparr> a_id = Num 3,
       a_title = Some ''Provide anti-slip footgear to workers'',
       a_description =
         Some ''Issue slip-resistant footwear and verify proper fit before platform access'',
       a_oshaCode = Str ''OSHA 1926.95(a)'',
       a_priority = Str ''Before Next Shift'',
       a_icon = Builtin ''Cog'',
       a_controlType = Some ''PPE'',
       a_responsibleRole = Some ''safety_officer'',
       a_durationMinutes = Some 60,
       a_materials = Some [''safety_boots''] \<rparr>]"

record view_plan =
  vp_id :: jsval
  planNumber :: nat
  standards :: "string list"
  costEstimate :: "real option"
  leadTimeDays :: "real option"
  vp_tasks :: "action_item list"

text \<open>\<open>xs || []\<close> on a list field, and \<open>plan.standards_refs?.[0]\<close>.\<close>

fun list_or_empty :: "'a list option \<Rightarrow> 'a list" where
  "list_or_empty None = []"
| "list_or_empty (Some xs) = xs"

fun optional_first :: "string list option \<Rightarrow> jsval" where
  "optional_first None = Undefined"
| "optional_first (Some []) = Undefined"
| "optional_first (Some (r # rs)) = Str r"

definition view_task :: "action_plan \<Rightarrow> nat \<Rightarrow> task \<Rightarrow> nat \<Rightarrow> action_item" where
  "view_task plan planIdx tk taskIdx =
    \<lparr> a_id = Str (decimal planIdx @ ''-'' @ decimal taskIdx),
      a_title = t_title tk,
      a_description = t_description tk,
      a_oshaCode = js_or (optional_first (standards_refs plan)) (Str ''OSHA General Duty''),
      a_priority = mapControlTypeToPriority (control_type tk),
      a_icon = getIconForControlType (control_type tk),
      a_controlType = control_type tk,
      a_responsibleRole = responsible_role tk,
      a_durationMinutes = duration_minutes tk,
      a_materials = Some (list_or_empty (material_requirements tk)) \<rparr>"

text \<open>\<open>xs.map((x, i) => f x i)\<close> with a callback that cannot raise.\<close>

definition map_with_index :: "('a \<Rightarrow> nat \<Rightarrow> 'b) \<Rightarrow> 'a list \<Rightarrow> 'b list" where
  "map_with_index f xs = map (\<lambda>(x, i). f x i) (zip xs [0..<length xs])"

definition view_of_plan :: "action_plan \<Rightarrow> nat \<Rightarrow> view_plan" where
  "view_of_plan plan planIdx =
    \<lparr> vp_id = js_or (of_str (plan_id plan)) (Str (''plan-'' @ decimal (planIdx + 1))),
      planNumber = planIdx + 1,
      standards = list_or_empty (standards_refs plan),
      costEstimate = cost_estimate plan,
      leadTimeDays = lead_time_days plan,
      vp_tasks = map_with_index (view_task plan planIdx) (list_or_empty (tasks plan)) \<rparr>"

definition actionPlans :: "action_plan list option \<Rightarrow> view_plan list" where
  "actionPlans apiData =
    (case apiData of
       Some (p # ps) \<Rightarrow> map_with_index view_of_plan (p # ps)
     | _ \<Rightarrow>
        [\<lparr> vp_id = Str ''default-plan'',
           planNumber = 1,
           standards = [''OSHA 1926.451''],
           costEstimate = None,
           leadTimeDays = None,
           vp_tasks = defaultActionItems \<rparr>])"

text \<open>\<open>actionPlans.flatMap(p => p.tasks)\<close>\<close>

definition allTasks :: "view_plan list \<Rightarrow> action_item list" where
  "allTasks plans = concat (map vp_tasks plans)"

section \<open>The backend call (services/api)\<close>

text \<open>
  A JSON value, for the \<open>detail\<close> field of an error body. Numbers are the integers.
\<close>

datatype json = JNull | JBool bool | JNum int | JStr string | JArr "json list"
  | JObj "(string \<times> json) list"

fun json_truthy :: "json \<Rightarrow> bool" where
  "json_truthy JNull = False"
| "json_truthy (JBool b) = b"
| "json_truthy (JNum n) = (n \<noteq> 0)"
| "json_truthy (JStr s) = (s \<noteq> [])"
| "json_truthy (JArr xs) = True"
| "json_truthy (JObj ps) = True"

fun join_comma :: "string list \<Rightarrow> string" where
  "join_comma [] = []"
| "join_comma [x] = x"
| "join_comma (x # y # ys) = x @ '','' @ join_comma (y # ys)"

text \<open>
  The string \<open>new Error(v)\<close> takes as its message: \<open>String(v)\<close>. An array joins its
  elements with commas, \<open>null\<close> elements as the empty string.
\<close>

fun json_string :: "json \<Rightarrow> string" where
  "json_string JNull = ''null''"
| "json_string (JBool b) = (if b then ''true'' else ''false'')"
| "json_string (JNum n) = (if n < 0 then ''-'' @ decimal (nat (- n)) else decimal (nat n))"
| "json_string (JStr s) = s"
| "json_string (JArr xs) = join_comma (map (\<lambda>x. if x = JNull then [] else json_string x) xs)"
| "json_string (JObj ps) = ''[object Object]''"

text \<open>
  What \<open>response.json()\<close> gives: a rejection with the parser's message when the body
  is not JSON, and otherwise the parsed object, seen through the properties the front end
  reads: \<open>detail\<close> (\<open>None\<close> when the object has none) and the three lists of a pipeline
  result. A body that parses to something that is not an object is not modelled.
\<close>

datatype body = NotJson string | JsonObject "json option" pipeline_result

record response =
  status :: nat
  body :: body

definition ok :: "response \<Rightarrow> bool" where
  "ok r = (200 \<le> status r \<and> status r \<le> 299)"

text \<open>\<open>fetch\<close> rejects with an error of the browser's (its message), or resolves.\<close>

datatype fetch_result = Rejected string | Resolved response

text \<open>
  \<open>error.detail || `API request failed with status ${response.status}`\<close>, as the
  message of the error thrown.
\<close>

fun detail_or_status :: "json option \<Rightarrow> nat \<Rightarrow> string" where
  "detail_or_status None st = ''API request failed with status '' @ decimal st"
| "detail_or_status (Some d) st =
    (if json_truthy d then json_string d else ''API request failed with status '' @ decimal st)"

text \<open>
  \<open>analyzeObservation\<close> returns the parsed result or throws an error: \<open>Inl\<close> its
  message.
\<close>

fun analyzeObservation :: "fetch_result \<Rightarrow> string + pipeline_result" where
  "analyzeObservation (Rejected m) = Inl m"
| "analyzeObservation (Resolved r) =
    (if \<not> ok r then
       (case body r of
          NotJson m \<Rightarrow> Inl (detail_or_status (Some (JStr ''Unknown error'')) (status r))
        | JsonObject d p \<Rightarrow> Inl (detail_or_status d (status r)))
     else
       (case body r of
          NotJson m \<Rightarrow> Inl m
        | JsonObject d p \<Rightarrow> Inr p))"

section \<open>Pipeline Orchestrator (pages/home)\<close>

datatype stage = FORM | RISK | SCORE | ACTION | SUMMARY

record home_state =
  stage :: stage
  observation :: "observation option"
  riskData :: "risk_data option"
  scoreData :: "score_data option"
  actions :: "action_item list option"
  completedSteps :: "string list"
  isSubmitting :: bool
  error :: "string option"
  pipelineResult :: "pipeline_result option"
  riskReady :: bool
  scoreReady :: bool
  actionReady :: bool
  viewingFromSummary :: bool

definition initial :: home_state where
  "initial =
    \<lparr> stage = FORM, observation = None, riskData = None, scoreData = None, actions = None,
      completedSteps = [], isSubmitting = False, error = None, pipelineResult = None,
      riskReady = False, scoreReady = False, actionReady = False,
      viewingFromSummary = False \<rparr>"

text \<open>
  \<open>handleObservationSubmit\<close> up to the \<open>await\<close>, and from the settled call on: the
  \<open>try\<close> body or the \<open>catch\<close>, then the \<open>finally\<close>.
\<close>

definition submit_started :: "observation \<Rightarrow> home_state \<Rightarrow> home_state" where
  "submit_started data s = s\<lparr> observation := Some data, isSubmitting := True, error := None \<rparr>"

definition submit_settled :: "string + pipeline_result \<Rightarrow> home_state \<Rightarrow> home_state" where
  "submit_settled outcome s =
    (case outcome of
       Inr result \<Rightarrow> s\<lparr> pipelineResult := Some result, stage := RISK, isSubmitting := False \<rparr>
     | Inl err_message \<Rightarrow> s\<lparr> error := Some err_message, isSubmitting := False \<rparr>)"

definition handleObservationSubmit :: "observation \<Rightarrow> fetch_result \<Rightarrow> home_state \<Rightarrow> home_state" where
  "handleObservationSubmit data fr s = submit_settled (analyzeObservation fr) (submit_started data s)"

text \<open>
  The three handlers a Stage Animator calls with its result (\<open>stageResultReady\<close>).
  An exception leaves the state as it was: no setter has run before it.
\<close>

definition handleRiskComplete :: "risk_data \<Rightarrow> home_state \<Rightarrow> js_error + home_state" where
  "handleRiskComplete data s =
    (case pipelineResult s of
       None \<Rightarrow> Inr (s\<lparr> riskData := Some data, riskReady := True \<rparr>)
     | Some pr \<Rightarrow>
        (case hazards pr of
           None \<Rightarrow> Inl TypeError
         | Some [] \<Rightarrow> Inr (s\<lparr> riskData := Some data, riskReady := True \<rparr>)
         | Some (h # hs) \<Rightarrow>
            (case observation s of
               None \<Rightarrow> Inl TypeError
             | Some obs \<Rightarrow>
                Inr (s\<lparr> riskData := Some (transformHazardToRiskData h obs),
                         riskReady := True \<rparr>))))"

definition handleContinueToScore :: "home_state \<Rightarrow> home_state" where
  "handleContinueToScore s =
    s\<lparr> completedSteps := completedSteps s @ [''risk''], stage := SCORE, riskReady := False \<rparr>"

definition handleScoreComplete :: "score_data \<Rightarrow> home_state \<Rightarrow> js_error + home_state" where
  "handleScoreComplete data s =
    (case pipelineResult s of
       None \<Rightarrow> Inr (s\<lparr> scoreData := Some data, scoreReady := True \<rparr>)
     | Some pr \<Rightarrow>
        (case scored_hazards pr of
           None \<Rightarrow> Inl TypeError
         | Some [] \<Rightarrow> Inr (s\<lparr> scoreData := Some data, scoreReady := True \<rparr>)
         | Some (h # hs) \<Rightarrow>
            (case transformScoredHazardToScoreData h of
               Inl e \<Rightarrow> Inl e
             | Inr transformedData \<Rightarrow>
                Inr (s\<lparr> scoreData := Some transformedData, scoreReady := True \<rparr>))))"

definition handleContinueToAction :: "home_state \<Rightarrow> home_state" where
  "handleContinueToAction s =
    s\<lparr> completedSteps := completedSteps s @ [''score''], stage := ACTION, scoreReady := False \<rparr>"

definition handleActionComplete :: "action_item list \<Rightarrow> home_state \<Rightarrow> js_error + home_state" where
  "handleActionComplete data s =
    (case pipelineResult s of
       None \<Rightarrow> Inr (s\<lparr> actions := Some data, actionReady := True \<rparr>)
     | Some pr \<Rightarrow>
        (case action_plans pr of
           None \<Rightarrow> Inl TypeError
         | Some [] \<Rightarrow> Inr (s\<lparr> actions := Some data, actionReady := True \<rparr>)
         | Some (p # ps) \<Rightarrow>
            (case transformActionPlanToActions p of
               Inl e \<Rightarrow> Inl e
             | Inr transformedData \<Rightarrow>
                Inr (s\<lparr> actions := Some transformedData, actionReady := True \<rparr>))))"

definition handleContinueToSummary :: "home_state \<Rightarrow> home_state" where
  "handleContinueToSummary s =
    s\<lparr> completedSteps := completedSteps s @ [''action''], stage := SUMMARY,
       actionReady := False \<rparr>"

definition handleReset :: "home_state \<Rightarrow> home_state" where
  "handleReset s =
    s\<lparr> stage := FORM, observation := None, riskData := None, scoreData := None,
       actions := None, completedSteps := [], pipelineResult := None, error := None,
       riskReady := False, scoreReady := False, actionReady := False,
       viewingFromSummary := False \<rparr>"

definition handleViewAgent :: "string \<Rightarrow> home_state \<Rightarrow> home_state" where
  "handleViewAgent agentType s =
    (let s1 = s\<lparr> viewingFromSummary := True \<rparr>
     in if agentType = ''risk'' then s1\<lparr> stage := RISK, riskReady := True \<rparr>
        else if agentType = ''score'' then s1\<lparr> stage := SCORE, scoreReady := True \<rparr>
        else if agentType = ''action'' then s1\<lparr> stage := ACTION, actionReady := True \<rparr>
        else s1)"

definition handleBackToSummary :: "home_state \<Rightarrow> home_state" where
  "handleBackToSummary s = s\<lparr> viewingFromSummary := False, stage := SUMMARY \<rparr>"

subsection \<open>What the rendered page lets happen\<close>

text \<open>
  The page renders one stage at a time, and a handler runs only through a control that is
  on the page: the form while the stage is FORM (its button disabled while submitting),
  a stage's Continue button once the stage is ready and the user is not reviewing, its
  Back to Summary button once it is ready and the user is reviewing, and the summary's
  Reset and its three View buttons. A Stage Animator may call its handler at any time.
  The backend call is taken as one step, from the click to the settled call.
\<close>

datatype event =
    Submit observation fetch_result
  | RiskComplete risk_data
  | ContinueToScore
  | ScoreComplete score_data
  | ContinueToAction
  | ActionComplete "action_item list"
  | ContinueToSummary
  | ViewAgent string
  | BackToSummary
  | Reset

fun enabled :: "event \<Rightarrow> home_state \<Rightarrow> bool" where
  "enabled (Submit data fr) s = (stage s = FORM \<and> \<not> isSubmitting s)"
| "enabled (RiskComplete d) s = True"
| "enabled ContinueToScore s = (stage s = RISK \<and> riskReady s \<and> \<not> viewingFromSummary s)"
| "enabled (ScoreComplete d) s = True"
| "enabled ContinueToAction s = (stage s = SCORE \<and> scoreReady s \<and> \<not> viewingFromSummary s)"
| "enabled (ActionComplete d) s = True"
| "enabled ContinueToSummary s = (stage s = ACTION \<and> actionReady s \<and> \<not> viewingFromSummary s)"
| "enabled (ViewAgent a) s = (stage s = SUMMARY \<and> a \<in> {''risk'', ''score'', ''action''})"
| "enabled BackToSummary s =
    (viewingFromSummary s \<and>
     (stage s = RISK \<and> riskReady s \<or> stage s = SCORE \<and> scoreReady s \<or>
      stage s = ACTION \<and> actionReady s))"
| "enabled Reset s = (stage s = SUMMARY)"

fun unchanged_on_error :: "home_state \<Rightarrow> js_error + home_state \<Rightarrow> home_state" where
  "unchanged_on_error s (Inl e) = s"
| "unchanged_on_error s (Inr s') = s'"

fun handle :: "event \<Rightarrow> home_state \<Rightarrow> home_state" where
  "handle (Submit data fr) s = handleObservationSubmit data fr s"
| "handle (RiskComplete d) s = unchanged_on_error s (handleRiskComplete d s)"
| "handle ContinueToScore s = handleContinueToScore s"
| "handle (ScoreComplete d) s = unchanged_on_error s (handleScoreComplete d s)"
| "handle ContinueToAction s = handleContinueToAction s"
| "handle (ActionComplete d) s = unchanged_on_error s (handleActionComplete d s)"
| "handle ContinueToSummary s = handleContinueToSummary s"
| "handle (ViewAgent a) s = handleViewAgent a s"
| "handle BackToSummary s = handleBackToSummary s"
| "handle Reset s = handleReset s"

inductive reachable :: "home_state \<Rightarrow> bool" where
  start: "reachable initial"
| step: "reachable s \<Longrightarrow> enabled e s \<Longrightarrow> reachable (handle e s)"

section \<open>Stage Animators: timers and effects\<close>

text \<open>
  A Stage Animator is a component with state, driven by the timers it sets. The model
  keeps, beside the component's own state, whether the component is mounted, the time
  (in milliseconds since it was mounted), for each of its timers the time it is due at
  while it is pending, and the calls it has made to \<open>onComplete\<close>, which is the
  \<open>stageResultReady\<close> signal to the orchestrator. Every timer of a component is set
  at one place of its code and is pending at most once at a time, so a timer is named by
  that place.

  A timeout that fires is no longer pending; an interval that fires is due again one
  period later, unless its callback clears it. Setting the state of a component that is
  no longer mounted does nothing, but a callback that runs then still runs its other
  statements. Unmounting runs the cleanup function that each effect returned.
\<close>

record ('k, 'r) machine =
  mounted :: bool
  now :: nat
  timers :: "'k \<Rightarrow> nat option"
  calls :: "'r list"

definition setTimeout :: "'k \<Rightarrow> nat \<Rightarrow> ('k, 'r, 'z) machine_scheme \<Rightarrow> ('k, 'r, 'z) machine_scheme" where
  "setTimeout k delay m = m\<lparr> timers := (timers m)(k \<mapsto> now m + delay) \<rparr>"

definition setInterval :: "'k \<Rightarrow> nat \<Rightarrow> ('k, 'r, 'z) machine_scheme \<Rightarrow> ('k, 'r, 'z) machine_scheme" where
  "setInterval k period m = m\<lparr> timers := (timers m)(k \<mapsto> now m + period) \<rparr>"

definition clearTimer :: "'k \<Rightarrow> ('k, 'r, 'z) machine_scheme \<Rightarrow> ('k, 'r, 'z) machine_scheme" where
  "clearTimer k m = m\<lparr> timers := (timers m)(k := None) \<rparr>"

definition onComplete :: "'r \<Rightarrow> ('k, 'r, 'z) machine_scheme \<Rightarrow> ('k, 'r, 'z) machine_scheme" where
  "onComplete r m = m\<lparr> calls := calls m @ [r] \<rparr>"

text \<open>The clock reaches the time \<open>d\<close> at which the timeout, or the interval, \<open>k\<close> is due.\<close>

definition timeout_fires :: "'k \<Rightarrow> nat \<Rightarrow> ('k, 'r, 'z) machine_scheme \<Rightarrow> ('k, 'r, 'z) machine_scheme" where
  "timeout_fires k d m = m\<lparr> now := d, timers := (timers m)(k := None) \<rparr>"

definition interval_fires ::
  "'k \<Rightarrow> nat \<Rightarrow> nat \<Rightarrow> ('k, 'r, 'z) machine_scheme \<Rightarrow> ('k, 'r, 'z) machine_scheme" where
  "interval_fires k period d m = m\<lparr> now := d, timers := (timers m)(k \<mapsto> d + period) \<rparr>"

text \<open>
  The pending timer that is due first, among the timers \<open>ks\<close>; of two due at the same
  time, the one listed first.
\<close>

fun earliest :: "'k list \<Rightarrow> ('k \<Rightarrow> nat option) \<Rightarrow> ('k \<times> nat) option" where
  "earliest [] ts = None"
| "earliest (k # ks) ts =
    (case ts k of
       None \<Rightarrow> earliest ks ts
     | Some d \<Rightarrow>
        (case earliest ks ts of
           None \<Rightarrow> Some (k, d)
         | Some (k', d') \<Rightarrow> if d' < d then Some (k', d') else Some (k, d)))"

datatype phase = Scanning | Analyzing | Evaluating | Scoring | Planning | Generating | Complete

text \<open>The string a string-valued view-model field holds, and the number a numeric one holds.\<close>

fun the_string :: "jsval \<Rightarrow> string" where
  "the_string (Str s) = s"
| "the_string v = []"

fun the_number :: "jsval \<Rightarrow> real" where
  "the_number (Num x) = x"
| "the_number v = 0"

subsection \<open>Risk Analyzer\<close>

definition scanningPhrases :: "string list" where
  "scanningPhrases =
    [''Initializing risk detection protocols...'',
     ''Scanning observation text for keywords...'',
     ''Cross-referencing OSHA hazard database...'',
     ''Analyzing environmental factors...'',
     ''Identifying potential risk vectors...'']"

datatype risk_timer = ScanInterval | ToAnalyzing | TypeInterval | RA_ToComplete | RA_ToSignal

record risk_props =
  ra_observation :: "observation option"
  ra_isActive :: bool
  ra_apiData :: "hazard option"
  ra_skipAnimation :: bool

text \<open>\<open>type_index\<close> is the variable \<open>index\<close> of the typing effect.\<close>

record risk_analyzer = "(risk_timer, risk_data) machine" +
  ra_props :: risk_props
  ra_phase :: phase
  scanIndex :: nat
  ra_result :: "risk_data option"
  typedText :: string
  type_index :: nat

definition ra_analysisResult :: "risk_analyzer \<Rightarrow> risk_data" where
  "ra_analysisResult c = analysisResult (ra_apiData (ra_props c)) (ra_observation (ra_props c))"

definition fullText :: "risk_analyzer \<Rightarrow> string" where
  "fullText c = the_string (rd_hazard (ra_analysisResult c))"

text \<open>The effect on \<open>[phase, onComplete, skipAnimation]\<close>: it types the result out.\<close>

definition ra_typing_effect :: "risk_analyzer \<Rightarrow> risk_analyzer" where
  "ra_typing_effect c =
    (if ra_phase c \<noteq> Analyzing \<or> ra_skipAnimation (ra_props c) then c
     else setInterval TypeInterval 30 (c\<lparr> type_index := 0 \<rparr>))"

text \<open>
  \<open>setPhase(p)\<close>: on a mounted component whose phase changes, the component renders
  again, the typing effect's cleanup (\<open>clearInterval(typeInterval)\<close>) runs and the effect
  runs again.
\<close>

definition ra_setPhase :: "phase \<Rightarrow> risk_analyzer \<Rightarrow> risk_analyzer" where
  "ra_setPhase p c =
    (if \<not> mounted c \<or> ra_phase c = p then c
     else ra_typing_effect (clearTimer TypeInterval (c\<lparr> ra_phase := p \<rparr>)))"

definition ra_setResult :: "risk_data \<Rightarrow> risk_analyzer \<Rightarrow> risk_analyzer" where
  "ra_setResult r c = (if mounted c then c\<lparr> ra_result := Some r \<rparr> else c)"

definition ra_setTypedText :: "string \<Rightarrow> risk_analyzer \<Rightarrow> risk_analyzer" where
  "ra_setTypedText t c = (if mounted c then c\<lparr> typedText := t \<rparr> else c)"

text \<open>
  The updater passed to \<open>setScanIndex\<close>. The scan interval is cleared when the
  component unmounts, so it runs on a mounted component.
\<close>

definition ra_scan_update :: "risk_analyzer \<Rightarrow> risk_analyzer" where
  "ra_scan_update c =
    (if \<not> mounted c then c
     else if scanIndex c \<ge> length scanningPhrases - 1
     then setTimeout ToAnalyzing 500 (clearTimer ScanInterval c)
     else c\<lparr> scanIndex := scanIndex c + 1 \<rparr>)"

text \<open>The callback of each timer, run when the timer is due at \<open>d\<close>.\<close>

fun ra_fire :: "risk_timer \<Rightarrow> nat \<Rightarrow> risk_analyzer \<Rightarrow> risk_analyzer" where
  "ra_fire ScanInterval d c = ra_scan_update (interval_fires ScanInterval 800 d c)"
| "ra_fire ToAnalyzing d c = ra_setPhase Analyzing (timeout_fires ToAnalyzing d c)"
| "ra_fire TypeInterval d c =
    (let c1 = interval_fires TypeInterval 30 d c;
         c2 = ra_setTypedText (take (type_index c1) (fullText c1)) c1;
         c3 = c2\<lparr> type_index := type_index c2 + 1 \<rparr>
     in if type_index c3 > length (fullText c3)
        then setTimeout RA_ToComplete 500 (clearTimer TypeInterval c3)
        else c3)"
| "ra_fire RA_ToComplete d c =
    (let c1 = timeout_fires RA_ToComplete d c;
         c2 = ra_setResult (ra_analysisResult c1) c1;
         c3 = ra_setPhase Complete c2
     in setTimeout RA_ToSignal 1000 c3)"
| "ra_fire RA_ToSignal d c =
    (let c1 = timeout_fires RA_ToSignal d c in onComplete (ra_analysisResult c1) c1)"

text \<open>
  The component after its first render and the effects of that render: the effect on
  \<open>[skipAnimation]\<close>, the scanning effect on \<open>[isActive, skipAnimation]\<close>, and the
  typing effect.
\<close>

definition RiskAnalyzer :: "risk_props \<Rightarrow> risk_analyzer" where
  "RiskAnalyzer props =
    (let c0 = \<lparr> mounted = True, now = 0, timers = (\<lambda>k. None), calls = [],
                ra_props = props,
                ra_phase = (if ra_skipAnimation props then Complete else Scanning),
                scanIndex = 0, ra_result = None, typedText = [], type_index = 0 \<rparr>;
         c1 = (if ra_skipAnimation props
               then c0\<lparr> ra_result := Some (ra_analysisResult c0), typedText := fullText c0 \<rparr>
               else c0);
         c2 = (if \<not> ra_isActive props \<or> ra_skipAnimation props then c1
               else setInterval ScanInterval 800 c1)
     in ra_typing_effect c2)"

text \<open>
  Unmounting: the scanning effect's cleanup is \<open>clearInterval(scanInterval)\<close>, the
  typing effect's is \<open>clearInterval(typeInterval)\<close>.
\<close>

definition ra_unmount :: "risk_analyzer \<Rightarrow> risk_analyzer" where
  "ra_unmount c = (clearTimer TypeInterval (clearTimer ScanInterval c))\<lparr> mounted := False \<rparr>"

definition risk_timers :: "risk_timer list" where
  "risk_timers = [ScanInterval, ToAnalyzing, TypeInterval, RA_ToComplete, RA_ToSignal]"

text \<open>Time passes until the next timer is due, and its callback runs.\<close>

definition ra_advance :: "risk_analyzer \<Rightarrow> risk_analyzer" where
  "ra_advance c =
    (case earliest risk_timers (timers c) of
       None \<Rightarrow> c
     | Some (k, d) \<Rightarrow> ra_fire k d c)"

subsection \<open>Score Manager\<close>

definition evaluationSteps :: "string list" where
  "evaluationSteps =
    [''Calibrating severity matrix...'',
     ''Assessing injury potential...'',
     ''Calculating likelihood factors...'',
     ''Evaluating exposure frequency...'',
     ''Computing final risk score...'']"

datatype score_timer =
  EvalInterval | ToScoring | SevInterval | LikDelay | LikInterval | SM_ToComplete | SM_ToSignal

record score_props =
  sm_riskData :: "risk_data option"
  sm_isActive :: bool
  sm_apiData :: "scored_hazard option"
  sm_skipAnimation :: bool

text \<open>
  \<open>sm_scoreResult\<close> is the \<open>scoreResult\<close> of the render, which the callbacks close
  over; \<open>sevVal\<close> and \<open>likVal\<close> are the counters of the two meter animations.
  They grow by 0.1 at each tick: in doubles in the source, in exact reals here, so a meter
  may take one tick more or less in the source than here. For a severity or likelihood so
  large that adding 0.1 to a double no longer changes it (far outside the data model's
  1 to 5), the source's meter would never reach its target.
\<close>

record score_manager = "(score_timer, score_data) machine" +
  sm_props :: score_props
  sm_scoreResult :: score_data
  sm_phase :: phase
  evalIndex :: nat
  severityValue :: real
  likelihoodValue :: real
  sm_result :: "score_data option"
  sevVal :: real
  likVal :: real

text \<open>
  The effect on \<open>[phase, onComplete, skipAnimation]\<close>: it starts the severity meter,
  and the likelihood meter 800 ms later. It returns the cleanup \<open>() => {}\<close>.
\<close>

definition sm_scoring_effect :: "score_manager \<Rightarrow> score_manager" where
  "sm_scoring_effect c =
    (if sm_phase c \<noteq> Scoring \<or> sm_skipAnimation (sm_props c) then c
     else setTimeout LikDelay 800 (setInterval SevInterval 30 (c\<lparr> sevVal := 0 \<rparr>)))"

definition sm_setPhase :: "phase \<Rightarrow> score_manager \<Rightarrow> score_manager" where
  "sm_setPhase p c =
    (if \<not> mounted c \<or> sm_phase c = p then c
     else sm_scoring_effect (c\<lparr> sm_phase := p \<rparr>))"

definition sm_setResult :: "score_data \<Rightarrow> score_manager \<Rightarrow> score_manager" where
  "sm_setResult r c = (if mounted c then c\<lparr> sm_result := Some r \<rparr> else c)"

definition sm_setSeverityValue :: "real \<Rightarrow> score_manager \<Rightarrow> score_manager" where
  "sm_setSeverityValue v c = (if mounted c then c\<lparr> severityValue := v \<rparr> else c)"

definition sm_setLikelihoodValue :: "real \<Rightarrow> score_manager \<Rightarrow> score_manager" where
  "sm_setLikelihoodValue v c = (if mounted c then c\<lparr> likelihoodValue := v \<rparr> else c)"

definition sm_eval_update :: "score_manager \<Rightarrow> score_manager" where
  "sm_eval_update c =
    (if \<not> mounted c then c
     else if evalIndex c \<ge> length evaluationSteps - 1
     then setTimeout ToScoring 500 (clearTimer EvalInterval c)
     else c\<lparr> evalIndex := evalIndex c + 1 \<rparr>)"

fun sm_fire :: "score_timer \<Rightarrow> nat \<Rightarrow> score_manager \<Rightarrow> score_manager" where
  "sm_fire EvalInterval d c = sm_eval_update (interval_fires EvalInterval 600 d c)"
| "sm_fire ToScoring d c = sm_setPhase Scoring (timeout_fires ToScoring d c)"
| "sm_fire SevInterval d c =
    (let c1 = interval_fires SevInterval 30 d c;
         c2 = c1\<lparr> sevVal := sevVal c1 + 1 / 10 \<rparr>;
         c3 = sm_setSeverityValue
                (min (sevVal c2) (the_number (sd_severity (sm_scoreResult c2)))) c2
     in if sevVal c3 \<ge> the_number (sd_severity (sm_scoreResult c3))
        then clearTimer SevInterval c3
        else c3)"
| "sm_fire LikDelay d c =
    (let c1 = timeout_fires LikDelay d c
     in setInterval LikInterval 30 (c1\<lparr> likVal := 0 \<rparr>))"
| "sm_fire LikInterval d c =
    (let c1 = interval_fires LikInterval 30 d c;
         c2 = c1\<lparr> likVal := likVal c1 + 1 / 10 \<rparr>;
         c3 = sm_setLikelihoodValue
                (min (likVal c2) (the_number (sd_likelihood (sm_scoreResult c2)))) c2
     in if likVal c3 \<ge> the_number (sd_likelihood (sm_scoreResult c3))
        then setTimeout SM_ToComplete 500 (clearTimer LikInterval c3)
        else c3)"
| "sm_fire SM_ToComplete d c =
    (let c1 = timeout_fires SM_ToComplete d c;
         c2 = sm_setResult (sm_scoreResult c1) c1;
         c3 = sm_setPhase Complete c2
     in setTimeout SM_ToSignal 1000 c3)"
| "sm_fire SM_ToSignal d c =
    (let c1 = timeout_fires SM_ToSignal d c in onComplete (sm_scoreResult c1) c1)"

text \<open>
  The component after its first render and its effects. A render that raises mounts
  nothing.
\<close>

definition ScoreManager :: "score_props \<Rightarrow> js_error + score_manager" where
  "ScoreManager props =
    (case scoreResult (sm_apiData props) of
       Inl e \<Rightarrow> Inl e
     | Inr r \<Rightarrow>
        (let c0 = \<lparr> mounted = True, now = 0, timers = (\<lambda>k. None), calls = [],
                    sm_props = props, sm_scoreResult = r,
                    sm_phase = (if sm_skipAnimation props then Complete else Evaluating),
                    evalIndex = 0, severityValue = 0, likelihoodValue = 0,
                    sm_result = None, sevVal = 0, likVal = 0 \<rparr>;
             c1 = (if sm_skipAnimation props
                   then c0\<lparr> sm_result := Some r,
                           severityValue := the_number (sd_severity r),
                           likelihoodValue := the_number (sd_likelihood r) \<rparr>
                   else c0);
             c2 = (if \<not> sm_isActive props \<or> sm_skipAnimation props then c1
                   else setInterval EvalInterval 600 c1)
         in Inr (sm_scoring_effect c2)))"

text \<open>
  Unmounting: the evaluation effect's cleanup is \<open>clearInterval(evalInterval)\<close>, the
  scoring effect's is \<open>() => {}\<close>.
\<close>

definition sm_unmount :: "score_manager \<Rightarrow> score_manager" where
  "sm_unmount c = (clearTimer EvalInterval c)\<lparr> mounted := False \<rparr>"

definition score_timers :: "score_timer list" where
  "score_timers =
    [EvalInterval, ToScoring, SevInterval, LikDelay, LikInterval, SM_ToComplete, SM_ToSignal]"

definition sm_advance :: "score_manager \<Rightarrow> score_manager" where
  "sm_advance c =
    (case earliest score_timers (timers c) of
       None \<Rightarrow> c
     | Some (k, d) \<Rightarrow> sm_fire k d c)"

subsection \<open>Action Planner\<close>

definition planningSteps :: "string list" where
  "planningSteps =
    [''Consulting OSHA standards database...'',
     ''Matching hazard to corrective templates...'',
     ''Generating action recommendations...'',
     ''Attaching regulatory citations...'',
     ''Finalizing action plan...'']"

text \<open>\<open>Reveal i\<close> is the timeout that reveals the plan at index \<open>i\<close>.\<close>

datatype action_timer = PlanInterval | ToGenerating | Reveal nat | AP_ToComplete | AP_ToSignal

record action_props =
  ap_scoreData :: "score_data option"
  ap_isActive :: bool
  ap_apiData :: "action_plan list option"
  ap_skipAnimation :: bool

record action_planner = "(action_timer, action_item list) machine" +
  ap_props :: action_props
  ap_phase :: phase
  planIndex :: nat
  visiblePlans :: "view_plan list"
  isFinished :: bool
  generatingStarted :: bool

definition ap_actionPlans :: "action_planner \<Rightarrow> view_plan list" where
  "ap_actionPlans c = actionPlans (ap_apiData (ap_props c))"

text \<open>
  The effect on \<open>[phase, onComplete, actionPlans]\<close>: once, it sets a timeout for each
  plan, 1200 ms apart. Its cleanup clears those timeouts.
\<close>

definition ap_generating_effect :: "action_planner \<Rightarrow> action_planner" where
  "ap_generating_effect c =
    (if ap_phase c \<noteq> Generating then c
     else if generatingStarted c then c
     else fold (\<lambda>index. setTimeout (Reveal index) (index * 1200))
            [0..<length (ap_actionPlans c)] (c\<lparr> generatingStarted := True \<rparr>))"

definition ap_generating_cleanup :: "action_planner \<Rightarrow> action_planner" where
  "ap_generating_cleanup c =
    fold (\<lambda>index. clearTimer (Reveal index)) [0..<length (ap_actionPlans c)] c"

definition ap_setPhase :: "phase \<Rightarrow> action_planner \<Rightarrow> action_planner" where
  "ap_setPhase p c =
    (if \<not> mounted c \<or> ap_phase c = p then c
     else ap_generating_effect (ap_generating_cleanup (c\<lparr> ap_phase := p \<rparr>)))"

definition ap_setIsFinished :: "bool \<Rightarrow> action_planner \<Rightarrow> action_planner" where
  "ap_setIsFinished b c = (if mounted c then c\<lparr> isFinished := b \<rparr> else c)"

definition ap_reveal :: "nat \<Rightarrow> action_planner \<Rightarrow> action_planner" where
  "ap_reveal index c =
    (if mounted c \<and> index < length (ap_actionPlans c)
     then c\<lparr> visiblePlans := visiblePlans c @ [ap_actionPlans c ! index] \<rparr>
     else c)"

definition ap_plan_update :: "action_planner \<Rightarrow> action_planner" where
  "ap_plan_update c =
    (if \<not> mounted c then c
     else if planIndex c \<ge> length planningSteps - 1
     then setTimeout ToGenerating 500 (clearTimer PlanInterval c)
     else c\<lparr> planIndex := planIndex c + 1 \<rparr>)"

fun ap_fire :: "action_timer \<Rightarrow> nat \<Rightarrow> action_planner \<Rightarrow> action_planner" where
  "ap_fire PlanInterval d c = ap_plan_update (interval_fires PlanInterval 700 d c)"
| "ap_fire ToGenerating d c = ap_setPhase Generating (timeout_fires ToGenerating d c)"
| "ap_fire (Reveal index) d c =
    (let c1 = timeout_fires (Reveal index) d c;
         c2 = ap_reveal index c1
     in if index = length (ap_actionPlans c2) - 1
        then setTimeout AP_ToComplete 800 c2
        else c2)"
| "ap_fire AP_ToComplete d c =
    (let c1 = timeout_fires AP_ToComplete d c;
         c2 = ap_setPhase Complete c1;
         c3 = ap_setIsFinished True c2
     in setTimeout AP_ToSignal 1000 c3)"
| "ap_fire AP_ToSignal d c =
    (let c1 = timeout_fires AP_ToSignal d c in onComplete (allTasks (ap_actionPlans c1)) c1)"

definition ActionPlanner :: "action_props \<Rightarrow> action_planner" where
  "ActionPlanner props =
    (let c0 = \<lparr> mounted = True, now = 0, timers = (\<lambda>k. None), calls = [],
                ap_props = props,
                ap_phase = (if ap_skipAnimation props then Complete else Planning),
                planIndex = 0, visiblePlans = [], isFinished = ap_skipAnimation props,
                generatingStarted = ap_skipAnimation props \<rparr>;
         c1 = (if ap_skipAnimation props \<and> length (ap_actionPlans c0) > 0
               then c0\<lparr> visiblePlans := ap_actionPlans c0 \<rparr>
               else c0);
         c2 = (if \<not> ap_isActive props \<or> ap_skipAnimation props then c1
               else setInterval PlanInterval 700 c1)
     in ap_generating_effect c2)"

text \<open>
  Unmounting: the planning effect's cleanup is \<open>clearInterval(planInterval)\<close>, the
  generating effect's clears the timeouts of the plans.
\<close>

definition ap_unmount :: "action_planner \<Rightarrow> action_planner" where
  "ap_unmount c = (ap_generating_cleanup (clearTimer PlanInterval c))\<lparr> mounted := False \<rparr>"

definition action_timers :: "action_planner \<Rightarrow> action_timer list" where
  "action_timers c =
    [PlanInterval, ToGenerating] @ map Reveal [0..<length (ap_actionPlans c)] @
    [AP_ToComplete, AP_ToSignal]"

definition ap_advance :: "action_planner \<Rightarrow> action_planner" where
  "ap_advance c =
    (case earliest (action_timers c) (timers c) of
       None \<Rightarrow> c
     | Some (k, d) \<Rightarrow> ap_fire k d c)"

subsection \<open>How the page mounts the animators\<close>

text \<open>
  The page renders the animator of the current stage with these props; \<open>xs?.[0]\<close> is
  the first element of a list that is there and not empty.
\<close>

fun first_of :: "'a list option \<Rightarrow> 'a option" where
  "first_of None = None"
| "first_of (Some []) = None"
| "first_of (Some (x # xs)) = Some x"

definition risk_props_of :: "home_state \<Rightarrow> risk_props" where
  "risk_props_of s =
    \<lparr> ra_observation = observation s,
      ra_isActive = (stage s = RISK),
      ra_apiData = (case pipelineResult s of None \<Rightarrow> None | Some pr \<Rightarrow> first_of (hazards pr)),
      ra_skipAnimation = viewingFromSummary s \<rparr>"

definition score_props_of :: "home_state \<Rightarrow> score_props" where
  "score_props_of s =
    \<lparr> sm_riskData = riskData s,
      sm_isActive = (stage s = SCORE),
      sm_apiData =
        (case pipelineResult s of None \<Rightarrow> None | Some pr \<Rightarrow> first_of (scored_hazards pr)),
      sm_skipAnimation = viewingFromSummary s \<rparr>"

definition action_props_of :: "home_state \<Rightarrow> action_props" where
  "action_props_of s =
    \<lparr> ap_scoreData = scoreData s,
      ap_isActive = (stage s = ACTION),
      ap_apiData = (case pipelineResult s of None \<Rightarrow> None | Some pr \<Rightarrow> action_plans pr),
      ap_skipAnimation = viewingFromSummary s \<rparr>"

section \<open>Invariants of the Stage Animators\<close>

text \<open>
  A timer is pending; and no timer outside a set is pending.
\<close>

definition pends :: "('k, 'r, 'z) machine_scheme \<Rightarrow> 'k \<Rightarrow> bool" where
  "pends c k = (timers c k \<noteq> None)"

definition pending_within :: "'k set \<Rightarrow> ('k, 'r, 'z) machine_scheme \<Rightarrow> bool" where
  "pending_within K c = (\<forall>k. k \<notin> K \<longrightarrow> timers c k = None)"

definition quiet :: "('k, 'r, 'z) machine_scheme \<Rightarrow> bool" where
  "quiet c = (\<forall>k. timers c k = None)"

text \<open>
  The Score Manager in scripted mode is at one of seven points of its script, told by the
  one timer of the script that is pending; the severity meter's interval runs beside the
  script. Up to the scoring phase the component is mounted. The measure bounds the number
  of timer callbacks still to run.
\<close>

definition sm_inv :: "score_manager \<Rightarrow> bool" where
  "sm_inv c =
    (\<not> sm_skipAnimation (sm_props c) \<and>
     (mounted c \<and> sm_phase c = Evaluating \<and> calls c = [] \<and> pends c EvalInterval \<and>
        pending_within {EvalInterval} c
      \<or> mounted c \<and> sm_phase c = Evaluating \<and> calls c = [] \<and> pends c ToScoring \<and>
        pending_within {ToScoring} c
      \<or> calls c = [] \<and> pends c LikDelay \<and> pending_within {LikDelay, SevInterval} c
      \<or> calls c = [] \<and> pends c LikInterval \<and> pending_within {LikInterval, SevInterval} c
      \<or> calls c = [] \<and> pends c SM_ToComplete \<and> pending_within {SM_ToComplete, SevInterval} c
      \<or> calls c = [] \<and> pends c SM_ToSignal \<and> pending_within {SM_ToSignal, SevInterval} c
      \<or> calls c = [sm_scoreResult c] \<and> pending_within {SevInterval} c))"

definition ticks_left :: "real \<Rightarrow> real \<Rightarrow> nat" where
  "ticks_left target v = nat \<lceil>(target - v) * 10\<rceil>"

definition sm_measure :: "score_manager \<Rightarrow> nat" where
  "sm_measure c =
    (let sev = the_number (sd_severity (sm_scoreResult c));
         lik = the_number (sd_likelihood (sm_scoreResult c))
     in (if pends c EvalInterval
         then 8 + ticks_left lik 0 + ticks_left sev 0 + (4 - evalIndex c) else 0) +
        (if pends c ToScoring then 7 + ticks_left lik 0 + ticks_left sev 0 else 0) +
        (if pends c SevInterval then 1 + ticks_left sev (sevVal c) else 0) +
        (if pends c LikDelay then 4 + ticks_left lik 0 else 0) +
        (if pends c LikInterval then 3 + ticks_left lik (likVal c) else 0) +
        (if pends c SM_ToComplete then 2 else 0) +
        (if pends c SM_ToSignal then 1 else 0))"

text \<open>
  The Risk Analyzer in scripted mode: one timer is pending at a time, up to the call of
  \<open>onComplete\<close>.
\<close>

definition ra_inv :: "risk_analyzer \<Rightarrow> bool" where
  "ra_inv c =
    (\<not> ra_skipAnimation (ra_props c) \<and>
     (mounted c \<and> ra_phase c = Scanning \<and> calls c = [] \<and> pends c ScanInterval \<and>
        pending_within {ScanInterval} c
      \<or> mounted c \<and> ra_phase c = Scanning \<and> calls c = [] \<and> pends c ToAnalyzing \<and>
        pending_within {ToAnalyzing} c
      \<or> calls c = [] \<and> pends c TypeInterval \<and> pending_within {TypeInterval} c \<and>
        type_index c \<le> length (fullText c)
      \<or> calls c = [] \<and> pends c RA_ToComplete \<and> pending_within {RA_ToComplete} c
      \<or> calls c = [] \<and> pends c RA_ToSignal \<and> pending_within {RA_ToSignal} c
      \<or> calls c = [ra_analysisResult c] \<and> pending_within {} c))"

definition ra_measure :: "risk_analyzer \<Rightarrow> nat" where
  "ra_measure c =
    (if pends c ScanInterval then 6 + length (fullText c) + (4 - scanIndex c) else 0) +
    (if pends c ToAnalyzing then 5 + length (fullText c) else 0) +
    (if pends c TypeInterval then 3 + (length (fullText c) + 1 - type_index c) else 0) +
    (if pends c RA_ToComplete then 2 else 0) +
    (if pends c RA_ToSignal then 1 else 0)"

text \<open>
  The Action Planner in scripted mode. The timeouts that reveal the plans are pending
  together; the one of the last plan continues the script.
\<close>

definition reveals :: "nat \<Rightarrow> action_timer set" where
  "reveals n = Reveal ` {..<n}"

definition ap_inv :: "action_planner \<Rightarrow> bool" where
  "ap_inv c =
    (let n = length (ap_actionPlans c)
     in \<not> ap_skipAnimation (ap_props c) \<and>
       (mounted c \<and> ap_phase c = Planning \<and> \<not> generatingStarted c \<and> calls c = [] \<and>
          pends c PlanInterval \<and> pending_within {PlanInterval} c
        \<or> mounted c \<and> ap_phase c = Planning \<and> \<not> generatingStarted c \<and> calls c = [] \<and>
          pends c ToGenerating \<and> pending_within {ToGenerating} c
        \<or> calls c = [] \<and> pends c (Reveal (n - 1)) \<and> pending_within (reveals n) c
        \<or> calls c = [] \<and> pends c AP_ToComplete \<and>
          pending_within (insert AP_ToComplete (reveals (n - 1))) c
        \<or> calls c = [] \<and> pends c AP_ToSignal \<and>
          pending_within (insert AP_ToSignal (reveals (n - 1))) c
        \<or> calls c = [allTasks (ap_actionPlans c)] \<and> pending_within (reveals (n - 1)) c))"

definition reveal_sum :: "nat \<Rightarrow> (action_timer \<Rightarrow> nat option) \<Rightarrow> nat" where
  "reveal_sum n ts =
    (\<Sum>i<n. if ts (Reveal i) \<noteq> None then (if i = n - 1 then 3 else 1) else 0)"

definition ap_measure :: "action_planner \<Rightarrow> nat" where
  "ap_measure c =
    (let n = length (ap_actionPlans c)
     in (if pends c PlanInterval then n + 8 + (4 - planIndex c) else 0) +
        (if pends c ToGenerating then n + 7 else 0) +
        reveal_sum n (timers c) +
        (if pends c AP_ToComplete then 2 else 0) +
        (if pends c AP_ToSignal then 1 else 0))"

section \<open>The orchestrator's history\<close>

text \<open>
  What the completed-stage history holds at each point of a run on the rendered page.
\<close>

definition history_inv :: "home_state \<Rightarrow> bool" where
  "history_inv s =
    (if viewingFromSummary s \<or> stage s = SUMMARY
     then completedSteps s = [''risk'', ''score'', ''action'']
     else if stage s = ACTION then completedSteps s = [''risk'', ''score'']
     else if stage s = SCORE then completedSteps s = [''risk'']
     else completedSteps s = [])"

section \<open>Scenarios\<close>

definition scenario_observation :: observation where
  "scenario_observation =
    \<lparr> site = ''Building A - 3rd Floor'', potential = ''HAZARD'', otype = ''UNSAFE_CONDITION'',
      o_description = Some ''worker on unguarded scaffold'' \<rparr>"

definition scenario_hazard :: hazard where
  "scenario_hazard =
    \<lparr> h_description = Some ''Unguarded scaffold edge'', taxonomy_ref = Some ''HAZ-FALL-001'',
      h_confidence = Some (92 / 100) \<rparr>"

definition scenario_scored :: scored_hazard where
  "scenario_scored =
    \<lparr> sh_severity = Some 5, sh_likelihood = Some 5, rpn = None, sh_priority = Some ''CRITICAL'' \<rparr>"

definition scenario_task :: task where
  "scenario_task =
    \<lparr> t_title = Some ''Install guardrails'', t_description = Some ''Guard the open edge'',
      control_type = Some ''ENGINEERING'', responsible_role = Some ''safety_engineer'',
      duration_minutes = Some 120, material_requirements = Some [''guardrails''] \<rparr>"

definition scenario_plan :: "string list \<Rightarrow> action_plan" where
  "scenario_plan refs =
    \<lparr> plan_id = Some ''plan-a'', standards_refs = Some refs, cost_estimate = None,
      lead_time_days = None, tasks = Some [scenario_task, scenario_task] \<rparr>"

definition scenario_result :: pipeline_result where
  "scenario_result =
    \<lparr> hazards = Some [scenario_hazard], scored_hazards = Some [scenario_scored],
      action_plans = Some [scenario_plan [''OSHA 1926.451'']] \<rparr>"

definition scenario_response :: fetch_result where
  "scenario_response = Resolved \<lparr> status = 200, body = JsonObject None scenario_result \<rparr>"

text \<open>The orchestrator after the scenario's observation is submitted and answered.\<close>

definition scenario_state :: home_state where
  "scenario_state = handleObservationSubmit scenario_observation scenario_response initial"

text \<open>The result the Risk Analyzer passes to its handler in the scenario.\<close>

definition scenario_signal :: risk_data where
  "scenario_signal = analysisResult (Some scenario_hazard) (Some scenario_observation)"

text \<open>The three Stage Animators as the scenario's run mounts them, in scripted mode.\<close>

definition scenario_risk_props :: risk_props where
  "scenario_risk_props =
    \<lparr> ra_observation = Some scenario_observation, ra_isActive = True,
      ra_apiData = Some scenario_hazard, ra_skipAnimation = False \<rparr>"

definition scenario_score_props :: score_props where
  "scenario_score_props =
    \<lparr> sm_riskData = None, sm_isActive = True, sm_apiData = Some scenario_scored,
      sm_skipAnimation = False \<rparr>"

definition scenario_action_props :: action_props where
  "scenario_action_props =
    \<lparr> ap_scoreData = None, ap_isActive = True,
      ap_apiData = Some [scenario_plan [''OSHA 1926.451'']], ap_skipAnimation = False \<rparr>"

text \<open>The same, as the summary's review of a stage mounts them, in immediate mode.\<close>

definition review_risk_props :: risk_props where
  "review_risk_props = scenario_risk_props\<lparr> ra_skipAnimation := True \<rparr>"

definition review_score_props :: score_props where
  "review_score_props = scenario_score_props\<lparr> sm_skipAnimation := True \<rparr>"

definition review_action_props :: action_props where
  "review_action_props = scenario_action_props\<lparr> ap_skipAnimation := True \<rparr>"

section \<open>Properties of the transformation layer\<close>

subsection \<open>Lookup tables\<close>

lemma mapTaxonomyToCategory_unlisted:
  "map_of taxonomy_categoryMap k = None \<Longrightarrow> map_of Object_prototype k = None \<Longrightarrow>
   mapTaxonomyToCategory (Some k) = Str ''General Safety''"
  by (simp add: mapTaxonomyToCategory_def obj_get_def js_or_def)

lemma mapControlTypeToPriority_unlisted:
  "map_of priorityMap k = None \<Longrightarrow> map_of Object_prototype k = None \<Longrightarrow>
   mapControlTypeToPriority (Some k) = Str ''Daily''"
  by (simp add: mapControlTypeToPriority_def obj_get_def js_or_def)

text \<open>
  Claim C9: the taxonomy-to-category and control-type-to-priority lookups return a value
  for every input string without throwing, every unrecognized taxonomy code maps to
  "General Safety" and every unrecognized control type to "Daily".

  The lookups never throw, and a code that is neither in the table nor a property name of
  \<open>Object.prototype\<close> takes the default (the two lemmas above). But the tables are object
  literals, and a code such as \<open>constructor\<close> or \<open>toString\<close> finds the inherited
  property, which is truthy, so the default of \<open>||\<close> is not taken: the lookup returns a
  built-in function, in the transformation layer and in the Action Planner alike.
\<close>

theorem lookup_returns_inherited_property:
  "mapTaxonomyToCategory (Some ''constructor'') = Builtin ''Object'' \<and>
   mapTaxonomyToCategory (Some ''constructor'') \<noteq> Str ''General Safety'' \<and>
   mapControlTypeToPriority (Some ''toString'') = Builtin ''Object.prototype.toString'' \<and>
   mapControlTypeToPriority (Some ''toString'') \<noteq> Str ''Daily'' \<and>
   map a_priority (projr (transformActionPlanToActions
      \<lparr> plan_id = None, standards_refs = Some [], cost_estimate = None, lead_time_days = None,
        tasks = Some [scenario_task\<lparr> control_type := Some ''toString'' \<rparr>] \<rparr>))
     = [Builtin ''Object.prototype.toString'']"
  by (simp add: mapTaxonomyToCategory_def mapControlTypeToPriority_def obj_get_def
      taxonomy_categoryMap_def priorityMap_def Object_prototype_def js_or_def
      transformActionPlanToActions_def action_of_task_def scenario_task_def)

subsection \<open>Keywords\<close>

lemma extractKeywords_at_most_5: "length (extractKeywords h ob) \<le> 5"
  by (simp add: extractKeywords_def Let_def)

lemma scenario_keywords:
  "extractKeywords (Some ''Unguarded scaffold edge'') (Some ''worker on unguarded scaffold'')
     = [''guard'']"
  by code_simp

text \<open>
  Claim C4: the keyword set of the transformation layer has between 3 and 5 terms when
  at least one vocabulary term matches, and is a fixed 3-term fallback set when none
  matches.

  \<open>extractKeywords\<close> returns the first \<open>min 5 n\<close> of the \<open>n\<close> matching terms: one
  term when one matches, and the empty list when none does, where the Risk Analyzer's own
  \<open>extractKeywords\<close> returns the fallback terms. The code's comment says
  "Return top 3-5 keywords".
\<close>

theorem extractKeywords_fewer_than_three:
  "extractKeywords (Some ''Unguarded scaffold edge'') (Some ''worker on unguarded scaffold'')
     = [''guard''] \<and>
   extractKeywords (Some ''Wet floor'') (Some ''water on the floor'') = [] \<and>
   ra_extractKeywords (Some ''Wet floor'') (Some ''water on the floor'')
     = [''safety'', ''hazard'', ''risk'']"
  by code_simp

subsection \<open>The risk view-model of the scenario\<close>

lemma scenario_riskData:
  "transformHazardToRiskData scenario_hazard scenario_observation =
    \<lparr> rd_hazard = Str ''Unguarded scaffold edge'',
      rd_category = Str ''Fall Protection / Scaffolding'',
      rd_keywords = [''guard''], rd_confidence = Num 92 \<rparr>"
  by (simp add: transformHazardToRiskData_def scenario_hazard_def scenario_observation_def
      scenario_keywords mapTaxonomyToCategory_def obj_get_def taxonomy_categoryMap_def js_or_def)

lemma scenario_state_eq:
  "scenario_state =
    initial\<lparr> observation := Some scenario_observation, pipelineResult := Some scenario_result,
             stage := RISK \<rparr>"
  by (simp add: scenario_state_def handleObservationSubmit_def submit_settled_def
      submit_started_def scenario_response_def ok_def initial_def)

text \<open>
  Claim C5: after the scenario's observation is submitted and the backend answers with
  the hazard "Unguarded scaffold edge" (HAZ-FALL-001, confidence 0.92), the Risk stage
  view-model has that hazard, category "Fall Protection / Scaffolding", confidence 92 and
  a keywords list that includes "scaffolding".

  The keywords are the vocabulary terms that occur in "unguarded scaffold edge worker on
  unguarded scaffold": "guard" does, "scaffolding" does not (the text has "scaffold").
\<close>

theorem scenario_keywords_counterexample:
  "handleRiskComplete (analysisResult (Some scenario_hazard) (Some scenario_observation))
     scenario_state =
   Inr (scenario_state\<lparr> riskData := Some \<lparr> rd_hazard = Str ''Unguarded scaffold edge'',
      rd_category = Str ''Fall Protection / Scaffolding'',
      rd_keywords = [''guard''], rd_confidence = Num 92 \<rparr>, riskReady := True \<rparr>) \<and>
   ''scaffolding'' \<notin> set [''guard'']"
  by (simp add: handleRiskComplete_def scenario_state_eq scenario_result_def scenario_riskData
      initial_def)

text \<open>
  Claim C5, amended: the Risk stage view-model has hazard "Unguarded scaffold edge",
  category "Fall Protection / Scaffolding", confidence 92, and a keywords list that
  includes "guard", whatever result the animator passes.
\<close>

theorem scenario_risk_view_model:
  "\<exists>rd. handleRiskComplete d scenario_state =
          Inr (scenario_state\<lparr> riskData := Some rd, riskReady := True \<rparr>) \<and>
        rd_hazard rd = Str ''Unguarded scaffold edge'' \<and>
        rd_category rd = Str ''Fall Protection / Scaffolding'' \<and>
        rd_confidence rd = Num 92 \<and>
        ''guard'' \<in> set (rd_keywords rd)"
  by (simp add: handleRiskComplete_def scenario_state_eq scenario_result_def scenario_riskData
      initial_def)

subsection \<open>The score view-model\<close>

lemma scenario_scoreData:
  "transformScoredHazardToScoreData scenario_scored =
    Inr \<lparr> sd_severity = Num 5, sd_likelihood = Num 5, sd_riskScore = Undefined,
          sd_category = Str ''Critical'', sd_color = Str ''red'' \<rparr>"
  by (simp add: transformScoredHazardToScoreData_def scenario_scored_def obj_get_def
      priority_categoryMap_def)

lemma scenario_scoreResult:
  "scoreResult (Some scenario_scored) =
    Inr \<lparr> sd_severity = Num 5, sd_likelihood = Num 5, sd_riskScore = Num 25,
          sd_category = Str ''Critical'', sd_color = Str ''red'' \<rparr>"
  by (simp add: scoreResult_def scenario_scored_def mapPriorityToCategory_def obj_get_def
      priority_categoryMap_def js_or_def)

text \<open>
  Claim C1: for a scored hazard with severity and likelihood and no rpn, the Score
  stage's final riskScore is severity times likelihood; for severity 5, likelihood 5,
  priority CRITICAL it is 25, with category "Critical".

  The Score Manager computes 25 (\<open>apiData.rpn || severity * likelihood\<close>), but
  \<open>handleScoreComplete\<close> stores the output of \<open>transformScoredHazardToScoreData\<close>
  instead, which copies \<open>rpn\<close> and never recomputes it: the final riskScore is
  \<open>undefined\<close>. The category is "Critical".
\<close>

theorem handleScoreComplete_riskScore_undefined:
  "scoreResult (sm_apiData (score_props_of scenario_state)) =
     Inr \<lparr> sd_severity = Num 5, sd_likelihood = Num 5, sd_riskScore = Num 25,
           sd_category = Str ''Critical'', sd_color = Str ''red'' \<rparr> \<and>
   handleScoreComplete
     \<lparr> sd_severity = Num 5, sd_likelihood = Num 5, sd_riskScore = Num 25,
       sd_category = Str ''Critical'', sd_color = Str ''red'' \<rparr> scenario_state =
     Inr (scenario_state\<lparr> scoreData :=
            Some \<lparr> sd_severity = Num 5, sd_likelihood = Num 5, sd_riskScore = Undefined,
                   sd_category = Str ''Critical'', sd_color = Str ''red'' \<rparr>,
          scoreReady := True \<rparr>)"
  by (simp add: scenario_scoreResult handleScoreComplete_def scenario_state_eq
      scenario_result_def scenario_scoreData initial_def score_props_of_def)

subsection \<open>Action items\<close>

lemma first_standard_Some:
  "first_standard (Some refs) =
    Inr (if refs \<noteq> [] \<and> hd refs \<noteq> [] then Str (hd refs) else Str ''OSHA General Duty'')"
  by (cases refs) (simp_all add: js_or_def)

lemma map_index_total:
  "(\<And>x i. f x i = Inr (g x i)) \<Longrightarrow>
   map_index f xs k = Inr (map (\<lambda>j. g (xs ! j) (k + j)) [0..<length xs])"
proof (induction xs arbitrary: k)
  case Nil
  then show ?case by simp
next
  case (Cons x xs)
  have "map (\<lambda>j. g ((x # xs) ! j) (k + j)) [0..<length (x # xs)] =
        g x k # map (\<lambda>j. g (xs ! j) (Suc k + j)) [0..<length xs]"
    by (simp add: upt_rec[of 0] map_Suc_upt[symmetric] del: upt_Suc)
  with Cons show ?case by simp
qed

text \<open>
  Claim C10: for every action plan whose tasks field is a list,
  \<open>transformActionPlanToActions\<close> returns a list of the same length and order, the item
  at position i has id i+1, and oshaCode is the plan's first standards reference when the
  standards_refs list is non-empty, else "OSHA General Duty".

  A first standards reference that is the empty string is falsy, and \<open>||\<close> replaces it
  by the default.
\<close>

theorem empty_standard_counterexample:
  "map a_oshaCode (projr (transformActionPlanToActions (scenario_plan ['''', ''OSHA 1926.451''])))
     = [Str ''OSHA General Duty'', Str ''OSHA General Duty''] \<and>
   Str ''OSHA General Duty'' \<noteq> Str (hd ['''', ''OSHA 1926.451''])"
  by (simp add: transformActionPlanToActions_def action_of_task_def scenario_plan_def js_or_def)

text \<open>
  Claim C10, amended: for every action plan whose tasks field and standards_refs field
  are lists, \<open>transformActionPlanToActions\<close> returns a list of the same length and order
  as the tasks, the item at position i has id i+1 and the fields of task i, and its
  oshaCode is the plan's first standards reference when standards_refs is non-empty and
  that reference is not the empty string, else "OSHA General Duty".
\<close>

theorem transformActionPlanToActions_items:
  assumes "tasks p = Some ts" and "standards_refs p = Some refs"
  shows "\<exists>items. transformActionPlanToActions p = Inr items \<and> length items = length ts \<and>
    (\<forall>i<length ts.
       a_id (items ! i) = Num (real (i + 1)) \<and>
       a_title (items ! i) = t_title (ts ! i) \<and>
       a_description (items ! i) = t_description (ts ! i) \<and>
       a_controlType (items ! i) = control_type (ts ! i) \<and>
       a_responsibleRole (items ! i) = responsible_role (ts ! i) \<and>
       a_durationMinutes (items ! i) = duration_minutes (ts ! i) \<and>
       a_materials (items ! i) = material_requirements (ts ! i) \<and>
       a_oshaCode (items ! i) =
         (if refs \<noteq> [] \<and> hd refs \<noteq> [] then Str (hd refs) else Str ''OSHA General Duty''))"
proof -
  let ?g = "\<lambda>tk index.
    \<lparr> a_id = Num (real (index + 1)), a_title = t_title tk, a_description = t_description tk,
      a_oshaCode = (if refs \<noteq> [] \<and> hd refs \<noteq> [] then Str (hd refs)
                    else Str ''OSHA General Duty''),
      a_priority = js_or (str_val (obj_get priorityMap (to_key (control_type tk))))
                         (Str ''Daily''),
      a_icon = Undefined, a_controlType = control_type tk,
      a_responsibleRole = responsible_role tk, a_durationMinutes = duration_minutes tk,
      a_materials = material_requirements tk \<rparr>"
  have "action_of_task p tk index = Inr (?g tk index)" for tk index
    using assms(2) by (simp add: action_of_task_def first_standard_Some)
  from map_index_total[of "action_of_task p" ?g, OF this]
  have "transformActionPlanToActions p = Inr (map (\<lambda>j. ?g (ts ! j) (0 + j)) [0..<length ts])"
    using assms(1) by (simp add: transformActionPlanToActions_def)
  then show ?thesis by simp
qed

theorem transformActionPlanToActions_items_witness:
  "\<exists>items. transformActionPlanToActions (scenario_plan [''OSHA 1926.451'']) = Inr items \<and>
     length items = 2 \<and> a_id (items ! 1) = Num 2 \<and>
     a_oshaCode (items ! 1) = Str ''OSHA 1926.451''"
proof -
  have t: "tasks (scenario_plan [''OSHA 1926.451'']) = Some [scenario_task, scenario_task]"
    and r: "standards_refs (scenario_plan [''OSHA 1926.451'']) = Some [''OSHA 1926.451'']"
    by (simp_all add: scenario_plan_def)
  from transformActionPlanToActions_items[OF t r] obtain items where
    i: "transformActionPlanToActions (scenario_plan [''OSHA 1926.451'']) = Inr items"
       "length items = 2"
       "\<forall>i<2. a_id (items ! i) = Num (real (i + 1)) \<and>
          a_oshaCode (items ! i) = Str ''OSHA 1926.451''"
    by auto
  from i(3) have "a_id (items ! 1) = Num 2 \<and> a_oshaCode (items ! 1) = Str ''OSHA 1926.451''"
    by auto
  with i(1,2) show ?thesis by blast
qed

section \<open>Properties of the Pipeline Orchestrator\<close>

subsection \<open>A failed backend call\<close>

text \<open>
  Claim C6: for every failure of the submit call (network error or non-2xx response),
  the workflow stays in FORM, the submitting flag ends false, and the error message is
  the backend's detail field when the error body has one, else the generic fallback
  string.

  A network error has no body: the message recorded is the one of the error that
  \<open>fetch\<close> rejected with, which is neither a detail nor a fallback string of the code.
\<close>

theorem network_error_counterexample:
  "error (handleObservationSubmit scenario_observation (Rejected ''Failed to fetch'') initial)
     = Some ''Failed to fetch'' \<and>
   ''Failed to fetch'' \<noteq> ''Unknown error'' \<and>
   \<not> startsWith ''Failed to fetch'' ''API request failed with status ''"
  by (simp add: handleObservationSubmit_def submit_settled_def submit_started_def startsWith_def)

text \<open>
  Claim C6, amended: for every failure of the submit call, the workflow stays in FORM, the
  submitting flag ends false, no result is stored, and the error message recorded is: the
  message of the network error when the request itself fails; the detail field when the
  response is non-2xx and its JSON body has a detail that is a non-empty string;
  "API request failed with status N" (N the status) when the JSON body has no detail, or
  an empty one; and "Unknown error" when the body of the non-2xx response is not JSON.
\<close>

theorem submit_failure:
  assumes "stage s = FORM" and "analyzeObservation fr = Inl m"
  shows "stage (handleObservationSubmit ob fr s) = FORM \<and>
    \<not> isSubmitting (handleObservationSubmit ob fr s) \<and>
    error (handleObservationSubmit ob fr s) = Some m \<and>
    pipelineResult (handleObservationSubmit ob fr s) = pipelineResult s \<and>
    (\<forall>e. fr = Rejected e \<longrightarrow> m = e) \<and>
    (\<forall>r d p. fr = Resolved r \<and> body r = JsonObject (Some (JStr d)) p \<and> d \<noteq> [] \<longrightarrow> m = d) \<and>
    (\<forall>r p. fr = Resolved r \<and> (body r = JsonObject None p \<or> body r = JsonObject (Some (JStr [])) p)
       \<longrightarrow> m = ''API request failed with status '' @ decimal (status r)) \<and>
    (\<forall>r e. fr = Resolved r \<and> \<not> ok r \<and> body r = NotJson e \<longrightarrow> m = ''Unknown error'')"
proof -
  have "stage (handleObservationSubmit ob fr s) = FORM \<and>
    \<not> isSubmitting (handleObservationSubmit ob fr s) \<and>
    error (handleObservationSubmit ob fr s) = Some m \<and>
    pipelineResult (handleObservationSubmit ob fr s) = pipelineResult s"
    using assms by (simp add: handleObservationSubmit_def submit_settled_def submit_started_def)
  moreover have "(\<forall>e. fr = Rejected e \<longrightarrow> m = e) \<and>
    (\<forall>r d p. fr = Resolved r \<and> body r = JsonObject (Some (JStr d)) p \<and> d \<noteq> [] \<longrightarrow> m = d) \<and>
    (\<forall>r p. fr = Resolved r \<and> (body r = JsonObject None p \<or> body r = JsonObject (Some (JStr [])) p)
       \<longrightarrow> m = ''API request failed with status '' @ decimal (status r)) \<and>
    (\<forall>r e. fr = Resolved r \<and> \<not> ok r \<and> body r = NotJson e \<longrightarrow> m = ''Unknown error'')"
    using assms(2) by (cases fr) (auto split: if_splits body.splits)
  ultimately show ?thesis by blast
qed

theorem submit_failure_witness:
  "stage (handleObservationSubmit scenario_observation
       (Resolved \<lparr> status = 500, body = JsonObject (Some (JStr ''Model unavailable'')) scenario_result \<rparr>)
       initial) = FORM \<and>
   error (handleObservationSubmit scenario_observation
       (Resolved \<lparr> status = 500, body = JsonObject (Some (JStr ''Model unavailable'')) scenario_result \<rparr>)
       initial) = Some ''Model unavailable''"
proof -
  have s: "stage initial = FORM" by (simp add: initial_def)
  have a: "analyzeObservation
      (Resolved \<lparr> status = 500, body = JsonObject (Some (JStr ''Model unavailable'')) scenario_result \<rparr>)
      = Inl ''Model unavailable''"
    by (simp add: ok_def)
  from submit_failure[OF s a, of scenario_observation] show ?thesis by simp
qed

subsection \<open>The completed-stage history\<close>

lemma handleRiskComplete_shape:
  "handleRiskComplete d s = Inr s' \<Longrightarrow> \<exists>rd. s' = s\<lparr> riskData := Some rd, riskReady := True \<rparr>"
  unfolding handleRiskComplete_def
  by (simp split: option.splits list.splits) blast+

lemma handleScoreComplete_shape:
  "handleScoreComplete d s = Inr s' \<Longrightarrow> \<exists>sd. s' = s\<lparr> scoreData := Some sd, scoreReady := True \<rparr>"
  unfolding handleScoreComplete_def
  by (simp split: option.splits list.splits sum.splits) blast+

lemma handleActionComplete_shape:
  "handleActionComplete d s = Inr s' \<Longrightarrow> \<exists>as. s' = s\<lparr> actions := Some as, actionReady := True \<rparr>"
  unfolding handleActionComplete_def
  by (simp split: option.splits list.splits sum.splits) blast+

lemma risk_signal_inv:
  "history_inv s \<Longrightarrow> history_inv (unchanged_on_error s (handleRiskComplete d s))"
proof (cases "handleRiskComplete d s")
  case (Inr s')
  assume "history_inv s"
  moreover from Inr obtain rd where "s' = s\<lparr> riskData := Some rd, riskReady := True \<rparr>"
    using handleRiskComplete_shape by blast
  ultimately show ?thesis using Inr by (simp add: history_inv_def)
qed simp

lemma score_signal_inv:
  "history_inv s \<Longrightarrow> history_inv (unchanged_on_error s (handleScoreComplete d s))"
proof (cases "handleScoreComplete d s")
  case (Inr s')
  assume "history_inv s"
  moreover from Inr obtain rd where "s' = s\<lparr> scoreData := Some rd, scoreReady := True \<rparr>"
    using handleScoreComplete_shape by blast
  ultimately show ?thesis using Inr by (simp add: history_inv_def)
qed simp

lemma action_signal_inv:
  "history_inv s \<Longrightarrow> history_inv (unchanged_on_error s (handleActionComplete d s))"
proof (cases "handleActionComplete d s")
  case (Inr s')
  assume "history_inv s"
  moreover from Inr obtain rd where "s' = s\<lparr> actions := Some rd, actionReady := True \<rparr>"
    using handleActionComplete_shape by blast
  ultimately show ?thesis using Inr by (simp add: history_inv_def)
qed simp

lemma submit_inv:
  "history_inv s \<Longrightarrow> stage s = FORM \<Longrightarrow> history_inv (handleObservationSubmit ob fr s)"
  by (cases "analyzeObservation fr")
     (simp_all add: history_inv_def handleObservationSubmit_def submit_settled_def
        submit_started_def split: if_splits)

lemma history_inv_step:
  assumes "history_inv s" and "enabled e s"
  shows "history_inv (handle e s)"
proof (cases e)
  case (Submit ob fr)
  with assms show ?thesis by (simp add: submit_inv)
next
  case (RiskComplete d)
  with assms show ?thesis by (simp add: risk_signal_inv)
next
  case (ScoreComplete d)
  with assms show ?thesis by (simp add: score_signal_inv)
next
  case (ActionComplete d)
  with assms show ?thesis by (simp add: action_signal_inv)
next
  case (ViewAgent a)
  with assms show ?thesis by (auto simp: history_inv_def handleViewAgent_def)
next
  case ContinueToScore
  with assms show ?thesis
    by (simp add: history_inv_def handleContinueToScore_def split: if_splits)
next
  case ContinueToAction
  with assms show ?thesis
    by (simp add: history_inv_def handleContinueToAction_def split: if_splits)
next
  case ContinueToSummary
  with assms show ?thesis
    by (simp add: history_inv_def handleContinueToSummary_def split: if_splits)
next
  case BackToSummary
  with assms show ?thesis
    by (simp add: history_inv_def handleBackToSummary_def split: if_splits)
next
  case Reset
  with assms show ?thesis by (simp add: history_inv_def handleReset_def split: if_splits)
qed

lemma reachable_history_inv: "reachable s \<Longrightarrow> history_inv s"
proof (induction rule: reachable.induct)
  case start
  show ?case by (simp add: history_inv_def initial_def)
next
  case (step s e)
  then show ?case using history_inv_step by blast
qed




subsection \<open>Reviewing a stage from the summary\<close>


section \<open>Properties of the Stage Animators\<close>

subsection \<open>The next timer\<close>

lemma earliest_SomeD: "earliest ks ts = Some (k, d) \<Longrightarrow> ts k = Some d \<and> k \<in> set ks"
  by (induction ks arbitrary: k d) (auto split: option.splits if_splits)

lemma earliest_NoneD: "earliest ks ts = None \<Longrightarrow> k \<in> set ks \<Longrightarrow> ts k = None"
  by (induction ks) (auto split: option.splits if_splits)

lemmas machine_ops = setTimeout_def setInterval_def clearTimer_def onComplete_def
  timeout_fires_def interval_fires_def

lemma run_until:
  assumes step: "\<And>c. I c \<Longrightarrow> \<not> Q c \<Longrightarrow> I (adv c) \<and> m (adv c) < (m c :: nat)"
    and init: "I c"
  shows "\<exists>n. Q ((adv ^^ n) c) \<and> I ((adv ^^ n) c)"
  using init
proof (induction "m c" arbitrary: c rule: less_induct)
  case less
  show ?case
  proof (cases "Q c")
    case True
    with less.prems have "Q ((adv ^^ 0) c) \<and> I ((adv ^^ 0) c)" by simp
    then show ?thesis by blast
  next
    case False
    with less.prems step have "I (adv c)" "m (adv c) < m c" by blast+
    from less.hyps[OF this(2) this(1)] obtain n where "Q ((adv ^^ n) (adv c)) \<and> I ((adv ^^ n) (adv c))"
      by blast
    then have "Q ((adv ^^ Suc n) c) \<and> I ((adv ^^ Suc n) c)" by (simp add: funpow_swap1)
    then show ?thesis by blast
  qed
qed

lemma holds_along:
  assumes "\<And>c. I c \<Longrightarrow> I (adv c)" and "I c"
  shows "I ((adv ^^ n) c)"
  using assms by (induction n) simp_all

lemma advance_fixed: "adv c = c \<Longrightarrow> (adv ^^ n) c = c"
  by (induction n) simp_all

lemma run_from: "n \<le> m \<Longrightarrow> (adv ^^ m) c = (adv ^^ (m - n)) ((adv ^^ n) c)"
  by (simp add: funpow_add[symmetric, unfolded comp_def, THEN fun_cong])

lemma ticks_left_step: "v + 1 / 10 < target \<Longrightarrow> ticks_left target (v + 1 / 10) < ticks_left target v"
proof -
  assume a: "v + 1 / 10 < target"
  have e: "(target - (v + 1 / 10)) * 10 = (target - v) * 10 - 1" by (simp add: algebra_simps)
  have "(target - v) * 10 > 1" using a by (simp add: algebra_simps)
  then have "\<lceil>(target - v) * 10\<rceil> \<ge> 2" by linarith
  then show ?thesis unfolding ticks_left_def e by linarith
qed

subsection \<open>Risk Analyzer\<close>

lemma ra_fire_keeps [simp]: "ra_props (ra_fire k d c) = ra_props c"
  by (cases k; simp add: Let_def ra_scan_update_def ra_setPhase_def ra_typing_effect_def
      ra_setResult_def ra_setTypedText_def machine_ops)

lemma ra_fire_result [simp]:
  "ra_analysisResult (ra_fire k d c) = ra_analysisResult c" "fullText (ra_fire k d c) = fullText c"
  by (simp_all add: ra_analysisResult_def fullText_def)

lemma ra_inv_pending:
  assumes "ra_inv c" and "timers c k = Some d"
  shows "\<not> ra_skipAnimation (ra_props c)"
    and "k = ScanInterval \<Longrightarrow> mounted c \<and> ra_phase c = Scanning \<and> calls c = [] \<and> pending_within {ScanInterval} c"
    and "k = ToAnalyzing \<Longrightarrow> mounted c \<and> ra_phase c = Scanning \<and> calls c = [] \<and> pending_within {ToAnalyzing} c"
    and "k = TypeInterval \<Longrightarrow> calls c = [] \<and> pending_within {TypeInterval} c \<and> type_index c \<le> length (fullText c)"
    and "k = RA_ToComplete \<Longrightarrow> calls c = [] \<and> pending_within {RA_ToComplete} c"
    and "k = RA_ToSignal \<Longrightarrow> calls c = [] \<and> pending_within {RA_ToSignal} c"
  using assms unfolding ra_inv_def pending_within_def pends_def by auto

lemma ra_invI:
  assumes "\<not> ra_skipAnimation (ra_props c)"
  shows "mounted c \<Longrightarrow> ra_phase c = Scanning \<Longrightarrow> calls c = [] \<Longrightarrow> pends c ScanInterval \<Longrightarrow>
           pending_within {ScanInterval} c \<Longrightarrow> ra_inv c"
    and "mounted c \<Longrightarrow> ra_phase c = Scanning \<Longrightarrow> calls c = [] \<Longrightarrow> pends c ToAnalyzing \<Longrightarrow>
           pending_within {ToAnalyzing} c \<Longrightarrow> ra_inv c"
    and "calls c = [] \<Longrightarrow> pends c TypeInterval \<Longrightarrow> pending_within {TypeInterval} c \<Longrightarrow>
           type_index c \<le> length (fullText c) \<Longrightarrow> ra_inv c"
    and "calls c = [] \<Longrightarrow> pends c RA_ToComplete \<Longrightarrow> pending_within {RA_ToComplete} c \<Longrightarrow> ra_inv c"
    and "calls c = [] \<Longrightarrow> pends c RA_ToSignal \<Longrightarrow> pending_within {RA_ToSignal} c \<Longrightarrow> ra_inv c"
    and "calls c = [ra_analysisResult c] \<Longrightarrow> pending_within {} c \<Longrightarrow> ra_inv c"
  using assms unfolding ra_inv_def by blast+

lemmas ra_ops = ra_scan_update_def ra_setPhase_def ra_typing_effect_def ra_setResult_def
  ra_setTypedText_def scanningPhrases_def ra_analysisResult_def fullText_def

lemma ra_step_Scan:
  assumes inv: "ra_inv c" and t: "timers c ScanInterval = Some d"
  shows "ra_inv (ra_fire ScanInterval d c) \<and> ra_measure (ra_fire ScanInterval d c) < ra_measure c"
proof -
  note f = ra_inv_pending(1)[OF inv t] ra_inv_pending(2)[OF inv t refl]
  have o: "\<And>k. k \<noteq> ScanInterval \<Longrightarrow> timers c k = None"
    using f(2) by (simp add: pending_within_def)
  show ?thesis
  proof (cases "scanIndex c \<ge> 4")
    case True
    have "ra_inv (ra_fire ScanInterval d c)"
      by (rule ra_invI(2))
         (use f True o in \<open>simp_all add: ra_ops machine_ops pends_def pending_within_def\<close>)
    moreover have "ra_measure (ra_fire ScanInterval d c) < ra_measure c"
      using f True o t by (auto simp add: ra_measure_def ra_ops machine_ops pends_def)
    ultimately show ?thesis ..
  next
    case False
    have "ra_inv (ra_fire ScanInterval d c)"
      by (rule ra_invI(1))
         (use f False o in \<open>simp_all add: ra_ops machine_ops pends_def pending_within_def\<close>)
    moreover have "ra_measure (ra_fire ScanInterval d c) < ra_measure c"
      using f False o t by (auto simp add: ra_measure_def ra_ops machine_ops pends_def)
    ultimately show ?thesis ..
  qed
qed

lemma ra_step_ToAnalyzing:
  assumes inv: "ra_inv c" and t: "timers c ToAnalyzing = Some d"
  shows "ra_inv (ra_fire ToAnalyzing d c) \<and> ra_measure (ra_fire ToAnalyzing d c) < ra_measure c"
proof -
  note f = ra_inv_pending(1)[OF inv t] ra_inv_pending(3)[OF inv t refl]
  have o: "\<And>k. k \<noteq> ToAnalyzing \<Longrightarrow> timers c k = None"
    using f(2) by (simp add: pending_within_def)
  have "ra_inv (ra_fire ToAnalyzing d c)"
    by (rule ra_invI(3))
       (use f o in \<open>simp_all add: ra_ops machine_ops pends_def pending_within_def\<close>)
  moreover have "ra_measure (ra_fire ToAnalyzing d c) < ra_measure c"
    using f o t by (auto simp add: ra_measure_def ra_ops machine_ops pends_def)
  ultimately show ?thesis ..
qed

lemma ra_step_Type:
  assumes inv: "ra_inv c" and t: "timers c TypeInterval = Some d"
  shows "ra_inv (ra_fire TypeInterval d c) \<and> ra_measure (ra_fire TypeInterval d c) < ra_measure c"
proof -
  note f = ra_inv_pending(1)[OF inv t] ra_inv_pending(4)[OF inv t refl]
  have o: "\<And>k. k \<noteq> TypeInterval \<Longrightarrow> timers c k = None"
    using f(2) by (simp add: pending_within_def)
  show ?thesis
  proof (cases "type_index c + 1 > length (fullText c)")
    case True
    have "ra_inv (ra_fire TypeInterval d c)"
      by (rule ra_invI(4))
         (use f True o in \<open>simp_all add: Let_def ra_ops machine_ops pends_def pending_within_def\<close>)
    moreover have "ra_measure (ra_fire TypeInterval d c) < ra_measure c"
      using f True o t by (auto simp add: ra_measure_def Let_def ra_ops machine_ops pends_def)
    ultimately show ?thesis ..
  next
    case False
    have "ra_inv (ra_fire TypeInterval d c)"
      by (rule ra_invI(3))
         (use f False o in \<open>simp_all add: Let_def ra_ops machine_ops pends_def pending_within_def\<close>)
    moreover have "ra_measure (ra_fire TypeInterval d c) < ra_measure c"
      using f False o t by (auto simp add: ra_measure_def Let_def ra_ops machine_ops pends_def)
    ultimately show ?thesis ..
  qed
qed

lemma ra_step_ToComplete:
  assumes inv: "ra_inv c" and t: "timers c RA_ToComplete = Some d"
  shows "ra_inv (ra_fire RA_ToComplete d c) \<and> ra_measure (ra_fire RA_ToComplete d c) < ra_measure c"
proof -
  note f = ra_inv_pending(1)[OF inv t] ra_inv_pending(5)[OF inv t refl]
  have o: "\<And>k. k \<noteq> RA_ToComplete \<Longrightarrow> timers c k = None"
    using f(2) by (simp add: pending_within_def)
  have "ra_inv (ra_fire RA_ToComplete d c)"
    by (rule ra_invI(5))
       (use f o in \<open>simp_all add: Let_def ra_ops machine_ops pends_def pending_within_def\<close>)
  moreover have "ra_measure (ra_fire RA_ToComplete d c) < ra_measure c"
    using f o t by (auto simp add: ra_measure_def Let_def ra_ops machine_ops pends_def)
  ultimately show ?thesis ..
qed

lemma ra_step_ToSignal:
  assumes inv: "ra_inv c" and t: "timers c RA_ToSignal = Some d"
  shows "ra_inv (ra_fire RA_ToSignal d c) \<and> ra_measure (ra_fire RA_ToSignal d c) < ra_measure c"
proof -
  note f = ra_inv_pending(1)[OF inv t] ra_inv_pending(6)[OF inv t refl]
  have o: "\<And>k. k \<noteq> RA_ToSignal \<Longrightarrow> timers c k = None"
    using f(2) by (simp add: pending_within_def)
  have "ra_inv (ra_fire RA_ToSignal d c)"
    by (rule ra_invI(6))
       (use f o in \<open>simp_all add: Let_def ra_ops machine_ops pends_def pending_within_def\<close>)
  moreover have "ra_measure (ra_fire RA_ToSignal d c) < ra_measure c"
    using f o t by (auto simp add: ra_measure_def Let_def ra_ops machine_ops pends_def)
  ultimately show ?thesis ..
qed

lemma ra_step:
  assumes "ra_inv c" and "timers c k = Some d"
  shows "ra_inv (ra_fire k d c) \<and> ra_measure (ra_fire k d c) < ra_measure c"
  using assms ra_step_Scan ra_step_ToAnalyzing ra_step_Type ra_step_ToComplete ra_step_ToSignal
  by (cases k) blast+

lemma risk_timers_all: "k \<in> set risk_timers"
  by (cases k) (simp_all add: risk_timers_def)

lemma ra_not_quiet:
  assumes "\<not> quiet c"
  obtains k d where "earliest risk_timers (timers c) = Some (k, d)" "timers c k = Some d"
proof (cases "earliest risk_timers (timers c)")
  case None
  then have "\<And>k. timers c k = None" using earliest_NoneD risk_timers_all by metis
  with assms show ?thesis by (simp add: quiet_def)
next
  case (Some kd)
  obtain k d where kd: "kd = (k, d)" by (cases kd)
  with Some have "timers c k = Some d" using earliest_SomeD[of risk_timers "timers c" k d] by simp
  with Some kd show ?thesis using that by simp
qed

lemma ra_advance_quiet: "quiet c \<Longrightarrow> ra_advance c = c"
proof -
  assume q: "quiet c"
  have "earliest risk_timers (timers c) = None"
  proof (cases "earliest risk_timers (timers c)")
    case (Some kd)
    then have "timers c (fst kd) = Some (snd kd)"
      using earliest_SomeD[of risk_timers "timers c" "fst kd" "snd kd"] by simp
    with q show ?thesis by (simp add: quiet_def)
  qed simp
  then show ?thesis by (simp add: ra_advance_def)
qed

lemma ra_advance_step:
  assumes "ra_inv c" and "\<not> quiet c"
  shows "ra_inv (ra_advance c) \<and> ra_measure (ra_advance c) < ra_measure c"
proof -
  from assms(2) obtain k d where "earliest risk_timers (timers c) = Some (k, d)" "timers c k = Some d"
    by (rule ra_not_quiet)
  then show ?thesis using ra_step[OF assms(1)] by (simp add: ra_advance_def)
qed

lemma ra_advance_inv: "ra_inv c \<Longrightarrow> ra_inv (ra_advance c)"
  using ra_advance_step ra_advance_quiet by (cases "quiet c") auto

lemma ra_advance_keeps [simp]: "ra_analysisResult (ra_advance c) = ra_analysisResult c"
  by (simp add: ra_advance_def split: option.splits)

lemma ra_run_keeps [simp]: "ra_analysisResult ((ra_advance ^^ n) c) = ra_analysisResult c"
  by (induction n) simp_all

lemma ra_inv_calls: "ra_inv c \<Longrightarrow> calls c = [] \<or> calls c = [ra_analysisResult c]"
  unfolding ra_inv_def by blast

lemma ra_inv_quiet: "ra_inv c \<Longrightarrow> quiet c \<Longrightarrow> calls c = [ra_analysisResult c]"
  by (auto simp: ra_inv_def quiet_def pends_def)

lemma ra_runs_to_signal:
  assumes "ra_inv c"
  shows "\<exists>n. quiet ((ra_advance ^^ n) c) \<and> calls ((ra_advance ^^ n) c) = [ra_analysisResult c]"
proof -
  from run_until[of ra_inv quiet ra_advance ra_measure, OF ra_advance_step assms]
  obtain n where "quiet ((ra_advance ^^ n) c)" "ra_inv ((ra_advance ^^ n) c)" by blast
  then show ?thesis using ra_inv_quiet by fastforce
qed

lemma ra_at_most_one:
  assumes "ra_inv c"
  shows "calls ((ra_advance ^^ n) c) = [] \<or> calls ((ra_advance ^^ n) c) = [ra_analysisResult c]"
  using ra_inv_calls[OF holds_along[of ra_inv ra_advance, OF ra_advance_inv assms, of n]] by simp

lemma RiskAnalyzer_scripted:
  assumes "\<not> ra_skipAnimation props" and "ra_isActive props"
  shows "ra_inv (RiskAnalyzer props) \<and> pends (RiskAnalyzer props) ScanInterval \<and>
    ra_analysisResult (RiskAnalyzer props) = analysisResult (ra_apiData props) (ra_observation props)"
  using assms
  by (simp add: RiskAnalyzer_def Let_def ra_ops machine_ops ra_inv_def pends_def pending_within_def)

lemma RiskAnalyzer_immediate:
  assumes "ra_skipAnimation props"
  shows "quiet (RiskAnalyzer props) \<and> calls (RiskAnalyzer props) = [] \<and>
    ra_result (RiskAnalyzer props) = Some (analysisResult (ra_apiData props) (ra_observation props))"
  using assms by (simp add: RiskAnalyzer_def Let_def ra_ops machine_ops quiet_def)

text \<open>Up to the end of the typing, 500 ms before the phase becomes complete.\<close>

lemma ra_reaches_typed:
  assumes "ra_inv c" and "pends c ScanInterval"
  shows "\<exists>k. ra_inv ((ra_advance ^^ k) c) \<and> mounted ((ra_advance ^^ k) c) \<and>
    ra_phase ((ra_advance ^^ k) c) = Analyzing \<and> calls ((ra_advance ^^ k) c) = [] \<and>
    pends ((ra_advance ^^ k) c) RA_ToComplete"
proof -
  let ?Q = "\<lambda>c. mounted c \<and> ra_phase c = Analyzing \<and> calls c = [] \<and> pends c RA_ToComplete"
  let ?T = "\<lambda>c. mounted c \<and> ra_phase c = Analyzing \<and> pends c TypeInterval"
  let ?I = "\<lambda>c. ra_inv c \<and> (pends c ScanInterval \<or> pends c ToAnalyzing \<or> ?T c \<or> ?Q c)"
  have step: "?I (ra_advance c) \<and> ra_measure (ra_advance c) < ra_measure c" if "?I c" "\<not> ?Q c" for c
  proof -
    from that have inv: "ra_inv c" and p: "pends c ScanInterval \<or> pends c ToAnalyzing \<or> ?T c"
      by blast+
    from p have nq: "\<not> quiet c" by (auto simp: quiet_def pends_def)
    from nq obtain k d where e: "earliest risk_timers (timers c) = Some (k, d)" "timers c k = Some d"
      by (rule ra_not_quiet)
    note s = ra_step[OF inv e(2)]
    from p show ?thesis
    proof (elim disjE)
      assume "pends c ScanInterval"
      then obtain d' where d': "timers c ScanInterval = Some d'" by (auto simp: pends_def)
      note f = ra_inv_pending(2)[OF inv d' refl]
      then have k: "k = ScanInterval" using e(2) by (auto simp: pending_within_def)
      have "pends (ra_fire ScanInterval d c) ScanInterval \<or> pends (ra_fire ScanInterval d c) ToAnalyzing"
        using f by (cases "scanIndex c \<ge> 4") (simp_all add: ra_ops machine_ops pends_def)
      with s k have "?I (ra_fire k d c) \<and> ra_measure (ra_fire k d c) < ra_measure c" by blast
      then show ?thesis using e(1) by (simp add: ra_advance_def)
    next
      assume "pends c ToAnalyzing"
      then obtain d' where d': "timers c ToAnalyzing = Some d'" by (auto simp: pends_def)
      note f = ra_inv_pending(1)[OF inv d'] ra_inv_pending(3)[OF inv d' refl]
      then have k: "k = ToAnalyzing" using e(2) by (auto simp: pending_within_def)
      have "?T (ra_fire ToAnalyzing d c)"
        using f by (simp add: ra_ops machine_ops pends_def)
      with s k have "?I (ra_fire k d c) \<and> ra_measure (ra_fire k d c) < ra_measure c" by blast
      then show ?thesis using e(1) by (simp add: ra_advance_def)
    next
      assume T: "?T c"
      then obtain d' where d': "timers c TypeInterval = Some d'" by (auto simp: pends_def)
      note f = ra_inv_pending(1)[OF inv d'] ra_inv_pending(4)[OF inv d' refl]
      then have k: "k = TypeInterval" using e(2) by (auto simp: pending_within_def)
      have "?T (ra_fire TypeInterval d c) \<or> ?Q (ra_fire TypeInterval d c)"
        using f T by (cases "type_index c + 1 > length (fullText c)")
          (simp_all add: Let_def ra_ops machine_ops pends_def)
      with s k have "?I (ra_fire k d c) \<and> ra_measure (ra_fire k d c) < ra_measure c" by blast
      then show ?thesis using e(1) by (simp add: ra_advance_def)
    qed
  qed
  from run_until[of ?I ?Q ra_advance ra_measure c] step assms
  obtain n where "?Q ((ra_advance ^^ n) c)" "?I ((ra_advance ^^ n) c)" by blast
  then show ?thesis by blast
qed

lemma ra_unmount_inv:
  assumes "ra_inv c" and "pends c RA_ToComplete"
  shows "ra_inv (ra_unmount c) \<and> ra_analysisResult (ra_unmount c) = ra_analysisResult c"
proof -
  from assms(2) obtain d where d: "timers c RA_ToComplete = Some d" by (auto simp: pends_def)
  note f = ra_inv_pending(1)[OF assms(1) d] ra_inv_pending(5)[OF assms(1) d refl]
  have "ra_inv (ra_unmount c)"
    by (rule ra_invI(4))
       (use f d in \<open>simp_all add: ra_unmount_def machine_ops pends_def pending_within_def\<close>)
  then show ?thesis by (simp add: ra_unmount_def machine_ops ra_analysisResult_def)
qed

lemma RiskAnalyzer_stale_signal:
  assumes "\<not> ra_skipAnimation props" and "ra_isActive props"
  shows "\<exists>k n. mounted ((ra_advance ^^ k) (RiskAnalyzer props)) \<and>
     ra_phase ((ra_advance ^^ k) (RiskAnalyzer props)) = Analyzing \<and>
     calls ((ra_advance ^^ k) (RiskAnalyzer props)) = [] \<and>
     calls ((ra_advance ^^ n) (ra_unmount ((ra_advance ^^ k) (RiskAnalyzer props))))
       = [analysisResult (ra_apiData props) (ra_observation props)]"
proof -
  note i = RiskAnalyzer_scripted[OF assms]
  from ra_reaches_typed[of "RiskAnalyzer props"] i obtain k where
    k: "ra_inv ((ra_advance ^^ k) (RiskAnalyzer props))" "mounted ((ra_advance ^^ k) (RiskAnalyzer props))"
       "ra_phase ((ra_advance ^^ k) (RiskAnalyzer props)) = Analyzing"
       "calls ((ra_advance ^^ k) (RiskAnalyzer props)) = []"
       "pends ((ra_advance ^^ k) (RiskAnalyzer props)) RA_ToComplete" by blast
  from ra_unmount_inv[OF k(1) k(5)] i have
    u: "ra_inv (ra_unmount ((ra_advance ^^ k) (RiskAnalyzer props)))"
       "ra_analysisResult (ra_unmount ((ra_advance ^^ k) (RiskAnalyzer props)))
          = analysisResult (ra_apiData props) (ra_observation props)" by simp_all
  from ra_runs_to_signal[OF u(1)] u(2) obtain n where
    "calls ((ra_advance ^^ n) (ra_unmount ((ra_advance ^^ k) (RiskAnalyzer props))))
       = [analysisResult (ra_apiData props) (ra_observation props)]" by auto
  with k show ?thesis by blast
qed

subsection \<open>Score Manager\<close>

lemma sm_fire_keeps [simp]:
  "sm_props (sm_fire k d c) = sm_props c" "sm_scoreResult (sm_fire k d c) = sm_scoreResult c"
  by (cases k; simp add: Let_def sm_eval_update_def sm_setPhase_def sm_scoring_effect_def sm_setResult_def
      sm_setSeverityValue_def sm_setLikelihoodValue_def machine_ops)+

lemma sm_inv_pending:
  assumes "sm_inv c" and "timers c k = Some d"
  shows "\<not> sm_skipAnimation (sm_props c)"
    and "k = EvalInterval \<Longrightarrow> mounted c \<and> sm_phase c = Evaluating \<and> calls c = [] \<and> pending_within {EvalInterval} c"
    and "k = ToScoring \<Longrightarrow> mounted c \<and> sm_phase c = Evaluating \<and> calls c = [] \<and> pending_within {ToScoring} c"
    and "k = LikDelay \<Longrightarrow> calls c = [] \<and> pending_within {LikDelay, SevInterval} c"
    and "k = LikInterval \<Longrightarrow> calls c = [] \<and> pending_within {LikInterval, SevInterval} c"
    and "k = SM_ToComplete \<Longrightarrow> calls c = [] \<and> pending_within {SM_ToComplete, SevInterval} c"
    and "k = SM_ToSignal \<Longrightarrow> calls c = [] \<and> pending_within {SM_ToSignal, SevInterval} c"
  using assms unfolding sm_inv_def pending_within_def pends_def by auto

lemma sm_inv_Sev:
  assumes "sm_inv c" and "timers c SevInterval = Some d"
  shows "\<exists>K. SevInterval \<in> K \<and> pending_within K c \<and>
     (K = {LikDelay, SevInterval} \<and> calls c = [] \<and> pends c LikDelay
      \<or> K = {LikInterval, SevInterval} \<and> calls c = [] \<and> pends c LikInterval
      \<or> K = {SM_ToComplete, SevInterval} \<and> calls c = [] \<and> pends c SM_ToComplete
      \<or> K = {SM_ToSignal, SevInterval} \<and> calls c = [] \<and> pends c SM_ToSignal
      \<or> K = {SevInterval} \<and> calls c = [sm_scoreResult c])"
  using assms unfolding sm_inv_def pending_within_def pends_def by auto

lemma sm_invI:
  assumes "\<not> sm_skipAnimation (sm_props c)"
  shows "mounted c \<Longrightarrow> sm_phase c = Evaluating \<Longrightarrow> calls c = [] \<Longrightarrow> pends c EvalInterval \<Longrightarrow>
           pending_within {EvalInterval} c \<Longrightarrow> sm_inv c"
    and "mounted c \<Longrightarrow> sm_phase c = Evaluating \<Longrightarrow> calls c = [] \<Longrightarrow> pends c ToScoring \<Longrightarrow>
           pending_within {ToScoring} c \<Longrightarrow> sm_inv c"
    and "calls c = [] \<Longrightarrow> pends c LikDelay \<Longrightarrow> pending_within {LikDelay, SevInterval} c \<Longrightarrow> sm_inv c"
    and "calls c = [] \<Longrightarrow> pends c LikInterval \<Longrightarrow> pending_within {LikInterval, SevInterval} c \<Longrightarrow> sm_inv c"
    and "calls c = [] \<Longrightarrow> pends c SM_ToComplete \<Longrightarrow> pending_within {SM_ToComplete, SevInterval} c \<Longrightarrow> sm_inv c"
    and "calls c = [] \<Longrightarrow> pends c SM_ToSignal \<Longrightarrow> pending_within {SM_ToSignal, SevInterval} c \<Longrightarrow> sm_inv c"
    and "calls c = [sm_scoreResult c] \<Longrightarrow> pending_within {SevInterval} c \<Longrightarrow> sm_inv c"
  using assms unfolding sm_inv_def by blast+

lemma sm_step_Eval:
  assumes inv: "sm_inv c" and t: "timers c EvalInterval = Some d"
  shows "sm_inv (sm_fire EvalInterval d c) \<and> sm_measure (sm_fire EvalInterval d c) < sm_measure c"
proof -
  note f = sm_inv_pending(1)[OF inv t] sm_inv_pending(2)[OF inv t refl]
  have o: "\<And>k. k \<noteq> EvalInterval \<Longrightarrow> timers c k = None"
    using f(2) by (simp add: pending_within_def)
  show ?thesis
  proof (cases "evalIndex c \<ge> 4")
    case True
    have "sm_inv (sm_fire EvalInterval d c)"
      by (rule sm_invI(2))
         (use f True o in \<open>simp_all add: sm_eval_update_def machine_ops evaluationSteps_def
            pends_def pending_within_def\<close>)
    moreover have "sm_measure (sm_fire EvalInterval d c) < sm_measure c"
      using f True o t
      by (simp add: sm_measure_def sm_eval_update_def machine_ops evaluationSteps_def pends_def Let_def)
    ultimately show ?thesis ..
  next
    case False
    have "sm_inv (sm_fire EvalInterval d c)"
      by (rule sm_invI(1))
         (use f False o in \<open>simp_all add: sm_eval_update_def machine_ops evaluationSteps_def
            pends_def pending_within_def\<close>)
    moreover have "sm_measure (sm_fire EvalInterval d c) < sm_measure c"
      using f False o t
      by (simp add: sm_measure_def sm_eval_update_def machine_ops evaluationSteps_def pends_def Let_def)
    ultimately show ?thesis ..
  qed
qed

lemma sm_step_ToScoring:
  assumes inv: "sm_inv c" and t: "timers c ToScoring = Some d"
  shows "sm_inv (sm_fire ToScoring d c) \<and> sm_measure (sm_fire ToScoring d c) < sm_measure c"
proof -
  note f = sm_inv_pending(1)[OF inv t] sm_inv_pending(3)[OF inv t refl]
  have o: "\<And>k. k \<noteq> ToScoring \<Longrightarrow> timers c k = None"
    using f(2) by (simp add: pending_within_def)
  have "sm_inv (sm_fire ToScoring d c)"
    by (rule sm_invI(3))
       (use f o in \<open>simp_all add: sm_setPhase_def sm_scoring_effect_def machine_ops
          pends_def pending_within_def\<close>)
  moreover have "sm_measure (sm_fire ToScoring d c) < sm_measure c"
    using f o t
    by (simp add: sm_measure_def sm_setPhase_def sm_scoring_effect_def machine_ops pends_def Let_def)
  ultimately show ?thesis ..
qed
lemma sm_inv_beside:
  assumes "sm_inv c" and "pends c SevInterval"
    and "\<And>k. k \<noteq> SevInterval \<Longrightarrow> timers c' k = timers c k"
    and "calls c' = calls c" and "sm_props c' = sm_props c" and "sm_scoreResult c' = sm_scoreResult c"
  shows "sm_inv c'"
proof -
  have p: "\<And>k. k \<noteq> SevInterval \<Longrightarrow> pends c' k = pends c k"
    using assms(3) by (simp add: pends_def)
  have w: "\<And>K. SevInterval \<in> K \<Longrightarrow> pending_within K c \<Longrightarrow> pending_within K c'"
    using assms(3) unfolding pending_within_def by metis
  from assms(2) obtain d where d: "timers c SevInterval = Some d"
    by (auto simp: pends_def)
  from sm_inv_Sev[OF assms(1) d] obtain K where K: "SevInterval \<in> K" "pending_within K c"
    "K = {LikDelay, SevInterval} \<and> calls c = [] \<and> pends c LikDelay
      \<or> K = {LikInterval, SevInterval} \<and> calls c = [] \<and> pends c LikInterval
      \<or> K = {SM_ToComplete, SevInterval} \<and> calls c = [] \<and> pends c SM_ToComplete
      \<or> K = {SM_ToSignal, SevInterval} \<and> calls c = [] \<and> pends c SM_ToSignal
      \<or> K = {SevInterval} \<and> calls c = [sm_scoreResult c]"
    by blast
  have s: "\<not> sm_skipAnimation (sm_props c')" using assms(1,5) by (simp add: sm_inv_def)
  from K(3) show ?thesis
  proof (elim disjE conjE)
    assume "K = {LikDelay, SevInterval}" "calls c = []" "pends c LikDelay"
    then show ?thesis using sm_invI(3)[OF s] w[OF K(1,2)] p assms(4) by simp
  next
    assume "K = {LikInterval, SevInterval}" "calls c = []" "pends c LikInterval"
    then show ?thesis using sm_invI(4)[OF s] w[OF K(1,2)] p assms(4) by simp
  next
    assume "K = {SM_ToComplete, SevInterval}" "calls c = []" "pends c SM_ToComplete"
    then show ?thesis using sm_invI(5)[OF s] w[OF K(1,2)] p assms(4) by simp
  next
    assume "K = {SM_ToSignal, SevInterval}" "calls c = []" "pends c SM_ToSignal"
    then show ?thesis using sm_invI(6)[OF s] w[OF K(1,2)] p assms(4) by simp
  next
    assume "K = {SevInterval}" "calls c = [sm_scoreResult c]"
    then show ?thesis using sm_invI(7)[OF s] w[OF K(1,2)] assms(4,6) by simp
  qed
qed

lemma sm_step_Sev:
  assumes inv: "sm_inv c" and t: "timers c SevInterval = Some d"
  shows "sm_inv (sm_fire SevInterval d c) \<and> sm_measure (sm_fire SevInterval d c) < sm_measure c"
proof -
  have "sm_inv (sm_fire SevInterval d c)"
    by (rule sm_inv_beside[OF inv])
       (use t in \<open>simp_all add: pends_def Let_def sm_setSeverityValue_def machine_ops\<close>)
  moreover have "sm_measure (sm_fire SevInterval d c) < sm_measure c"
  proof (cases "sevVal c + 1 / 10 \<ge> the_number (sd_severity (sm_scoreResult c))")
    case True
    then show ?thesis using t
      by (simp add: sm_measure_def pends_def Let_def sm_setSeverityValue_def machine_ops)
  next
    case False
    then have "ticks_left (the_number (sd_severity (sm_scoreResult c))) (sevVal c + 1 / 10)
        < ticks_left (the_number (sd_severity (sm_scoreResult c))) (sevVal c)"
      by (intro ticks_left_step) simp
    then show ?thesis using t False
      by (simp add: sm_measure_def pends_def Let_def sm_setSeverityValue_def machine_ops)
  qed
  ultimately show ?thesis ..
qed

lemma sm_step_LikDelay:
  assumes inv: "sm_inv c" and t: "timers c LikDelay = Some d"
  shows "sm_inv (sm_fire LikDelay d c) \<and> sm_measure (sm_fire LikDelay d c) < sm_measure c"
proof -
  note f = sm_inv_pending(1)[OF inv t] sm_inv_pending(4)[OF inv t refl]
  have o: "\<And>k. k \<noteq> LikDelay \<Longrightarrow> k \<noteq> SevInterval \<Longrightarrow> timers c k = None"
    using f(2) by (simp add: pending_within_def)
  have "sm_inv (sm_fire LikDelay d c)"
    by (rule sm_invI(4))
       (use f o in \<open>simp_all add: machine_ops pends_def pending_within_def\<close>)
  moreover have "sm_measure (sm_fire LikDelay d c) < sm_measure c"
    using f o t by (simp add: sm_measure_def machine_ops pends_def Let_def)
  ultimately show ?thesis ..
qed

lemma sm_step_LikInterval:
  assumes inv: "sm_inv c" and t: "timers c LikInterval = Some d"
  shows "sm_inv (sm_fire LikInterval d c) \<and> sm_measure (sm_fire LikInterval d c) < sm_measure c"
proof -
  note f = sm_inv_pending(1)[OF inv t] sm_inv_pending(5)[OF inv t refl]
  have o: "\<And>k. k \<noteq> LikInterval \<Longrightarrow> k \<noteq> SevInterval \<Longrightarrow> timers c k = None"
    using f(2) by (simp add: pending_within_def)
  show ?thesis
  proof (cases "likVal c + 1 / 10 \<ge> the_number (sd_likelihood (sm_scoreResult c))")
    case True
    have "sm_inv (sm_fire LikInterval d c)"
      by (rule sm_invI(5))
         (use f o True in \<open>simp_all add: Let_def sm_setLikelihoodValue_def machine_ops pends_def
            pending_within_def\<close>)
    moreover have "sm_measure (sm_fire LikInterval d c) < sm_measure c"
      using f o t True
      by (simp add: sm_measure_def Let_def sm_setLikelihoodValue_def machine_ops pends_def)
    ultimately show ?thesis ..
  next
    case False
    then have l: "ticks_left (the_number (sd_likelihood (sm_scoreResult c))) (likVal c + 1 / 10)
        < ticks_left (the_number (sd_likelihood (sm_scoreResult c))) (likVal c)"
      by (intro ticks_left_step) simp
    have "sm_inv (sm_fire LikInterval d c)"
      by (rule sm_invI(4))
         (use f o False in \<open>simp_all add: Let_def sm_setLikelihoodValue_def machine_ops pends_def
            pending_within_def\<close>)
    moreover have "sm_measure (sm_fire LikInterval d c) < sm_measure c"
      using f o t False l
      by (simp add: sm_measure_def Let_def sm_setLikelihoodValue_def machine_ops pends_def)
    ultimately show ?thesis ..
  qed
qed

lemma sm_step_ToComplete:
  assumes inv: "sm_inv c" and t: "timers c SM_ToComplete = Some d"
  shows "sm_inv (sm_fire SM_ToComplete d c) \<and> sm_measure (sm_fire SM_ToComplete d c) < sm_measure c"
proof -
  note f = sm_inv_pending(1)[OF inv t] sm_inv_pending(6)[OF inv t refl]
  have o: "\<And>k. k \<noteq> SM_ToComplete \<Longrightarrow> k \<noteq> SevInterval \<Longrightarrow> timers c k = None"
    using f(2) by (simp add: pending_within_def)
  have "sm_inv (sm_fire SM_ToComplete d c)"
    by (rule sm_invI(6))
       (use f o in \<open>simp_all add: Let_def sm_setResult_def sm_setPhase_def sm_scoring_effect_def
          machine_ops pends_def pending_within_def\<close>)
  moreover have "sm_measure (sm_fire SM_ToComplete d c) < sm_measure c"
    using f o t
    by (simp add: sm_measure_def Let_def sm_setResult_def sm_setPhase_def sm_scoring_effect_def
        machine_ops pends_def)
  ultimately show ?thesis ..
qed

lemma sm_step_ToSignal:
  assumes inv: "sm_inv c" and t: "timers c SM_ToSignal = Some d"
  shows "sm_inv (sm_fire SM_ToSignal d c) \<and> sm_measure (sm_fire SM_ToSignal d c) < sm_measure c"
proof -
  note f = sm_inv_pending(1)[OF inv t] sm_inv_pending(7)[OF inv t refl]
  have o: "\<And>k. k \<noteq> SM_ToSignal \<Longrightarrow> k \<noteq> SevInterval \<Longrightarrow> timers c k = None"
    using f(2) by (simp add: pending_within_def)
  have "sm_inv (sm_fire SM_ToSignal d c)"
    by (rule sm_invI(7))
       (use f o in \<open>simp_all add: Let_def machine_ops pends_def pending_within_def\<close>)
  moreover have "sm_measure (sm_fire SM_ToSignal d c) < sm_measure c"
    using f o t by (simp add: sm_measure_def Let_def machine_ops pends_def)
  ultimately show ?thesis ..
qed

lemma sm_step:
  assumes "sm_inv c" and "timers c k = Some d"
  shows "sm_inv (sm_fire k d c) \<and> sm_measure (sm_fire k d c) < sm_measure c"
  using assms sm_step_Eval sm_step_ToScoring sm_step_Sev sm_step_LikDelay sm_step_LikInterval
    sm_step_ToComplete sm_step_ToSignal
  by (cases k) blast+
lemma score_timers_all: "k \<in> set score_timers"
  by (cases k) (simp_all add: score_timers_def)

lemma sm_not_quiet:
  assumes "\<not> quiet c"
  obtains k d where "earliest score_timers (timers c) = Some (k, d)" "timers c k = Some d"
proof (cases "earliest score_timers (timers c)")
  case None
  then have "\<And>k. timers c k = None" using earliest_NoneD score_timers_all by metis
  with assms show ?thesis by (simp add: quiet_def)
next
  case (Some kd)
  obtain k d where kd: "kd = (k, d)" by (cases kd)
  with Some have "timers c k = Some d" using earliest_SomeD[of score_timers "timers c" k d] by simp
  with Some kd show ?thesis using that by simp
qed

lemma sm_advance_quiet: "quiet c \<Longrightarrow> sm_advance c = c"
proof -
  assume q: "quiet c"
  have "earliest score_timers (timers c) = None"
  proof (cases "earliest score_timers (timers c)")
    case (Some kd)
    then have "timers c (fst kd) = Some (snd kd)"
      using earliest_SomeD[of score_timers "timers c" "fst kd" "snd kd"] by simp
    with q show ?thesis by (simp add: quiet_def)
  qed simp
  then show ?thesis by (simp add: sm_advance_def)
qed

lemma sm_advance_step:
  assumes "sm_inv c" and "\<not> quiet c"
  shows "sm_inv (sm_advance c) \<and> sm_measure (sm_advance c) < sm_measure c"
proof -
  from assms(2) obtain k d where "earliest score_timers (timers c) = Some (k, d)" "timers c k = Some d"
    by (rule sm_not_quiet)
  then show ?thesis using sm_step[OF assms(1)] by (simp add: sm_advance_def)
qed

lemma sm_advance_inv: "sm_inv c \<Longrightarrow> sm_inv (sm_advance c)"
  using sm_advance_step sm_advance_quiet by (cases "quiet c") auto

lemma sm_advance_keeps [simp]: "sm_scoreResult (sm_advance c) = sm_scoreResult c"
  by (simp add: sm_advance_def split: option.splits)

lemma sm_run_keeps [simp]: "sm_scoreResult ((sm_advance ^^ n) c) = sm_scoreResult c"
  by (induction n) simp_all

lemma sm_inv_calls: "sm_inv c \<Longrightarrow> calls c = [] \<or> calls c = [sm_scoreResult c]"
  unfolding sm_inv_def by blast

lemma sm_inv_quiet: "sm_inv c \<Longrightarrow> quiet c \<Longrightarrow> calls c = [sm_scoreResult c]"
  by (auto simp: sm_inv_def quiet_def pends_def)

lemma sm_runs_to_signal:
  assumes "sm_inv c"
  shows "\<exists>n. quiet ((sm_advance ^^ n) c) \<and> calls ((sm_advance ^^ n) c) = [sm_scoreResult c]"
proof -
  from run_until[of sm_inv quiet sm_advance sm_measure, OF sm_advance_step assms]
  obtain n where "quiet ((sm_advance ^^ n) c)" "sm_inv ((sm_advance ^^ n) c)" by blast
  then show ?thesis using sm_inv_quiet by fastforce
qed

lemma sm_at_most_one:
  assumes "sm_inv c"
  shows "calls ((sm_advance ^^ n) c) = [] \<or> calls ((sm_advance ^^ n) c) = [sm_scoreResult c]"
  using sm_inv_calls[OF holds_along[of sm_inv sm_advance, OF sm_advance_inv assms, of n]] by simp

lemma member_total: "p \<noteq> Absent \<Longrightarrow> \<exists>a b. member_category p = Inr a \<and> member_color p = Inr b"
  by (cases p) simp_all

lemma mapPriorityToCategory_present: "mapPriorityToCategory p \<noteq> Absent"
proof -
  have "obj_get priority_categoryMap ''MEDIUM'' \<noteq> Absent"
    by (simp add: obj_get_def priority_categoryMap_def)
  then show ?thesis
    unfolding mapPriorityToCategory_def
    by (cases "obj_get priority_categoryMap (to_key p)") simp_all
qed

lemma scoreResult_total: "\<exists>r. scoreResult a = Inr r"
proof (cases a)
  case None
  then show ?thesis by (simp add: scoreResult_def)
next
  case (Some h)
  from member_total[OF mapPriorityToCategory_present[of "sh_priority h"]]
  obtain x y where "member_category (mapPriorityToCategory (sh_priority h)) = Inr x"
    "member_color (mapPriorityToCategory (sh_priority h)) = Inr y" by blast
  with Some show ?thesis by (simp add: scoreResult_def)
qed

lemma ScoreManager_scripted:
  assumes "\<not> sm_skipAnimation props" and "sm_isActive props" and "scoreResult (sm_apiData props) = Inr r"
  shows "\<exists>c0. ScoreManager props = Inr c0 \<and> sm_inv c0 \<and> sm_scoreResult c0 = r"
  using assms
  by (simp add: ScoreManager_def Let_def sm_scoring_effect_def machine_ops sm_inv_def pends_def
      pending_within_def)

lemma ScoreManager_immediate:
  assumes "sm_skipAnimation props" and "scoreResult (sm_apiData props) = Inr r"
  shows "\<exists>c0. ScoreManager props = Inr c0 \<and> quiet c0 \<and> calls c0 = [] \<and> sm_result c0 = Some r"
  using assms
  by (simp add: ScoreManager_def Let_def sm_scoring_effect_def machine_ops quiet_def)

text \<open>Up to the scoring phase.\<close>

lemma sm_reaches_scoring:
  assumes "sm_inv c" and "pends c EvalInterval \<or> pends c ToScoring"
  shows "\<exists>k. sm_inv ((sm_advance ^^ k) c) \<and> mounted ((sm_advance ^^ k) c) \<and>
    sm_phase ((sm_advance ^^ k) c) = Scoring \<and> calls ((sm_advance ^^ k) c) = [] \<and>
    pends ((sm_advance ^^ k) c) LikDelay"
proof -
  let ?Q = "\<lambda>c. mounted c \<and> sm_phase c = Scoring \<and> calls c = [] \<and> pends c LikDelay"
  let ?I = "\<lambda>c. sm_inv c \<and> (pends c EvalInterval \<or> pends c ToScoring \<or> ?Q c)"
  have step: "?I (sm_advance c) \<and> sm_measure (sm_advance c) < sm_measure c" if "?I c" "\<not> ?Q c" for c
  proof -
    from that have inv: "sm_inv c" and p: "pends c EvalInterval \<or> pends c ToScoring" by blast+
    from p have nq: "\<not> quiet c" by (auto simp: quiet_def pends_def)
    from nq obtain k d where e: "earliest score_timers (timers c) = Some (k, d)" "timers c k = Some d"
      by (rule sm_not_quiet)
    note s = sm_step[OF inv e(2)]
    from p show ?thesis
    proof
      assume "pends c EvalInterval"
      then obtain d' where d': "timers c EvalInterval = Some d'" by (auto simp: pends_def)
      note f = sm_inv_pending(2)[OF inv d' refl]
      then have k: "k = EvalInterval" using e(2) by (auto simp: pending_within_def)
      have "pends (sm_fire EvalInterval d c) EvalInterval \<or> pends (sm_fire EvalInterval d c) ToScoring"
        using f by (cases "evalIndex c \<ge> 4")
          (simp_all add: sm_eval_update_def machine_ops pends_def evaluationSteps_def)
      with s k have "?I (sm_fire k d c) \<and> sm_measure (sm_fire k d c) < sm_measure c" by blast
      then show ?thesis using e(1) by (simp add: sm_advance_def)
    next
      assume "pends c ToScoring"
      then obtain d' where d': "timers c ToScoring = Some d'" by (auto simp: pends_def)
      note f = sm_inv_pending(1)[OF inv d'] sm_inv_pending(3)[OF inv d' refl]
      then have k: "k = ToScoring" using e(2) by (auto simp: pending_within_def)
      have "?Q (sm_fire ToScoring d c)"
        using f by (simp add: sm_setPhase_def sm_scoring_effect_def machine_ops pends_def)
      with s k have "?I (sm_fire k d c) \<and> sm_measure (sm_fire k d c) < sm_measure c" by blast
      then show ?thesis using e(1) by (simp add: sm_advance_def)
    qed
  qed
  from run_until[of ?I ?Q sm_advance sm_measure c] step assms
  obtain n where "?Q ((sm_advance ^^ n) c)" "?I ((sm_advance ^^ n) c)" by blast
  then show ?thesis by blast
qed

lemma sm_unmount_inv:
  assumes "sm_inv c" and "pends c LikDelay"
  shows "sm_inv (sm_unmount c) \<and> sm_scoreResult (sm_unmount c) = sm_scoreResult c"
proof -
  from assms(2) obtain d where d: "timers c LikDelay = Some d" by (auto simp: pends_def)
  note f = sm_inv_pending(1)[OF assms(1) d] sm_inv_pending(4)[OF assms(1) d refl]
  have "sm_inv (sm_unmount c)"
    by (rule sm_invI(3))
       (use f d in \<open>simp_all add: sm_unmount_def machine_ops pends_def pending_within_def\<close>)
  then show ?thesis by (simp add: sm_unmount_def machine_ops)
qed

lemma ScoreManager_stale_signal:
  assumes "\<not> sm_skipAnimation props" and "sm_isActive props"
  shows "\<exists>c0 r k n. ScoreManager props = Inr c0 \<and> scoreResult (sm_apiData props) = Inr r \<and>
     mounted ((sm_advance ^^ k) c0) \<and> sm_phase ((sm_advance ^^ k) c0) = Scoring \<and>
     calls ((sm_advance ^^ k) c0) = [] \<and>
     calls ((sm_advance ^^ n) (sm_unmount ((sm_advance ^^ k) c0))) = [r]"
proof -
  obtain r where r: "scoreResult (sm_apiData props) = Inr r" using scoreResult_total by blast
  from ScoreManager_scripted[OF assms r] obtain c0 where
    c0: "ScoreManager props = Inr c0" "sm_inv c0" "sm_scoreResult c0 = r" by blast
  have "pends c0 EvalInterval"
    using c0(1) assms r
    by (auto simp: ScoreManager_def Let_def sm_scoring_effect_def machine_ops pends_def)
  from sm_reaches_scoring[OF c0(2)] this obtain k where
    k: "sm_inv ((sm_advance ^^ k) c0)" "mounted ((sm_advance ^^ k) c0)"
       "sm_phase ((sm_advance ^^ k) c0) = Scoring" "calls ((sm_advance ^^ k) c0) = []"
       "pends ((sm_advance ^^ k) c0) LikDelay" by blast
  from sm_unmount_inv[OF k(1) k(5)] have
    u: "sm_inv (sm_unmount ((sm_advance ^^ k) c0))"
       "sm_scoreResult (sm_unmount ((sm_advance ^^ k) c0)) = r" using c0(3) by simp_all
  from sm_runs_to_signal[OF u(1)] u(2) obtain n where
    "calls ((sm_advance ^^ n) (sm_unmount ((sm_advance ^^ k) c0))) = [r]" by auto
  with c0(1) r k show ?thesis by blast
qed

subsection \<open>Action Planner\<close>

lemma actionPlans_nonempty: "actionPlans a \<noteq> []"
  by (simp add: actionPlans_def map_with_index_def split: option.splits list.splits)

lemma reveal_fold_set:
  "fold (\<lambda>index. setTimeout (Reveal index) (index * 1200)) [0..<n] c =
    c\<lparr> timers := (\<lambda>k. case k of Reveal i \<Rightarrow> if i < n then Some (now c + i * 1200) else timers c k
                             | _ \<Rightarrow> timers c k) \<rparr>"
proof (induction n)
  case 0
  have "(\<lambda>k. case k of Reveal i \<Rightarrow> if i < 0 then Some (now c + i * 1200) else timers c k
              | _ \<Rightarrow> timers c k) = timers c"
    by (auto simp: fun_eq_iff split: action_timer.splits)
  then show ?case by simp
next
  case (Suc n)
  have "(\<lambda>k. case k of Reveal i \<Rightarrow> if i < n then Some (now c + i * 1200) else timers c k
              | _ \<Rightarrow> timers c k)(Reveal n \<mapsto> now c + n * 1200)
      = (\<lambda>k. case k of Reveal i \<Rightarrow> if i < Suc n then Some (now c + i * 1200) else timers c k
              | _ \<Rightarrow> timers c k)"
    by (auto simp: fun_eq_iff split: action_timer.splits)
  with Suc show ?case by (simp add: setTimeout_def)
qed

lemma reveal_fold_clear:
  "fold (\<lambda>index. clearTimer (Reveal index)) [0..<n] c =
    c\<lparr> timers := (\<lambda>k. case k of Reveal i \<Rightarrow> if i < n then None else timers c k
                             | _ \<Rightarrow> timers c k) \<rparr>"
proof (induction n)
  case 0
  have "(\<lambda>k. case k of Reveal i \<Rightarrow> if i < 0 then None else timers c k
              | _ \<Rightarrow> timers c k) = timers c"
    by (auto simp: fun_eq_iff split: action_timer.splits)
  then show ?case by simp
next
  case (Suc n)
  have "(\<lambda>k. case k of Reveal i \<Rightarrow> if i < n then None else timers c k
              | _ \<Rightarrow> timers c k)(Reveal n := None)
      = (\<lambda>k. case k of Reveal i \<Rightarrow> if i < Suc n then None else timers c k
              | _ \<Rightarrow> timers c k)"
    by (auto simp: fun_eq_iff split: action_timer.splits)
  with Suc show ?case by (simp add: clearTimer_def)
qed

lemmas ap_ops = ap_plan_update_def ap_setPhase_def ap_generating_effect_def
  ap_generating_cleanup_def ap_setIsFinished_def ap_reveal_def planningSteps_def
  ap_actionPlans_def reveal_fold_set reveal_fold_clear

lemma ap_fire_keeps [simp]: "ap_props (ap_fire k d c) = ap_props c"
  by (cases k; simp add: Let_def ap_ops machine_ops)

lemma ap_fire_plans [simp]: "ap_actionPlans (ap_fire k d c) = ap_actionPlans c"
  by (simp add: ap_actionPlans_def)

lemma reveal_sum_cong:
  "(\<And>i. i < n \<Longrightarrow> (ts' (Reveal i) = None) = (ts (Reveal i) = None)) \<Longrightarrow>
   reveal_sum n ts' = reveal_sum n ts"
  unfolding reveal_sum_def by (rule sum.cong) simp_all

lemma reveal_sum_none:
  "(\<And>i. i < n \<Longrightarrow> ts (Reveal i) = None) \<Longrightarrow> reveal_sum n ts = 0"
  unfolding reveal_sum_def by simp

lemma reveal_sum_mono:
  "(\<And>i. i < n \<Longrightarrow> ts (Reveal i) = None \<Longrightarrow> ts' (Reveal i) = None) \<Longrightarrow>
   reveal_sum n ts' \<le> reveal_sum n ts"
  unfolding reveal_sum_def by (rule sum_mono) auto

lemma reveal_sum_remove:
  assumes "j < n" and "ts (Reveal j) = Some d"
    and "\<And>i. i \<noteq> j \<Longrightarrow> ts' (Reveal i) = ts (Reveal i)" and "ts' (Reveal j) = None"
  shows "reveal_sum n ts' + (if j = n - 1 then 3 else 1) = reveal_sum n ts"
proof -
  let ?w = "\<lambda>ts i. if ts (Reveal i) \<noteq> None then (if i = n - 1 then 3 else 1) else (0::nat)"
  have f: "finite {..<n}" "j \<in> {..<n}" using assms(1) by simp_all
  have "sum (?w ts') ({..<n} - {j}) = sum (?w ts) ({..<n} - {j})"
    by (rule sum.cong) (use assms(3) in auto)
  then show ?thesis
    unfolding reveal_sum_def sum.remove[OF f, of "?w ts'"] sum.remove[OF f, of "?w ts"]
    using assms(2,4) by simp
qed

lemma reveal_sum_all:
  assumes "n \<ge> 1" and "\<And>i. i < n \<Longrightarrow> ts (Reveal i) \<noteq> None"
  shows "reveal_sum n ts = n + 2"
proof -
  have f: "finite {..<n}" "n - 1 \<in> {..<n}" using assms(1) by simp_all
  have "(\<Sum>i\<in>{..<n} - {n - 1}. if ts (Reveal i) \<noteq> None then (if i = n - 1 then 3 else 1) else 0)
      = (\<Sum>i\<in>{..<n} - {n - 1}. (1::nat))"
    by (rule sum.cong) (use assms(2) in auto)
  also have "\<dots> = n - 1" using assms(1) by simp
  finally show ?thesis
    unfolding reveal_sum_def sum.remove[OF f] using assms by simp
qed

lemma ap_inv_pending:
  assumes "ap_inv c" and "timers c k = Some d"
  shows "\<not> ap_skipAnimation (ap_props c)"
    and "k = PlanInterval \<Longrightarrow> mounted c \<and> ap_phase c = Planning \<and> \<not> generatingStarted c \<and>
           calls c = [] \<and> pending_within {PlanInterval} c"
    and "k = ToGenerating \<Longrightarrow> mounted c \<and> ap_phase c = Planning \<and> \<not> generatingStarted c \<and>
           calls c = [] \<and> pending_within {ToGenerating} c"
    and "k = AP_ToComplete \<Longrightarrow> calls c = [] \<and>
           pending_within (insert AP_ToComplete (reveals (length (ap_actionPlans c) - 1))) c"
    and "k = AP_ToSignal \<Longrightarrow> calls c = [] \<and>
           pending_within (insert AP_ToSignal (reveals (length (ap_actionPlans c) - 1))) c"
  using assms unfolding ap_inv_def pending_within_def pends_def reveals_def Let_def by auto

lemma ap_invI:
  assumes "\<not> ap_skipAnimation (ap_props c)"
  shows "mounted c \<Longrightarrow> ap_phase c = Planning \<Longrightarrow> \<not> generatingStarted c \<Longrightarrow> calls c = [] \<Longrightarrow>
           pends c PlanInterval \<Longrightarrow> pending_within {PlanInterval} c \<Longrightarrow> ap_inv c"
    and "mounted c \<Longrightarrow> ap_phase c = Planning \<Longrightarrow> \<not> generatingStarted c \<Longrightarrow> calls c = [] \<Longrightarrow>
           pends c ToGenerating \<Longrightarrow> pending_within {ToGenerating} c \<Longrightarrow> ap_inv c"
    and "calls c = [] \<Longrightarrow> pends c (Reveal (length (ap_actionPlans c) - 1)) \<Longrightarrow>
           pending_within (reveals (length (ap_actionPlans c))) c \<Longrightarrow> ap_inv c"
    and "calls c = [] \<Longrightarrow> pends c AP_ToComplete \<Longrightarrow>
           pending_within (insert AP_ToComplete (reveals (length (ap_actionPlans c) - 1))) c \<Longrightarrow>
           ap_inv c"
    and "calls c = [] \<Longrightarrow> pends c AP_ToSignal \<Longrightarrow>
           pending_within (insert AP_ToSignal (reveals (length (ap_actionPlans c) - 1))) c \<Longrightarrow>
           ap_inv c"
    and "calls c = [allTasks (ap_actionPlans c)] \<Longrightarrow>
           pending_within (reveals (length (ap_actionPlans c) - 1)) c \<Longrightarrow> ap_inv c"
  using assms unfolding ap_inv_def Let_def by blast+

lemma ap_step_Plan:
  assumes inv: "ap_inv c" and t: "timers c PlanInterval = Some d"
  shows "ap_inv (ap_fire PlanInterval d c) \<and> ap_measure (ap_fire PlanInterval d c) < ap_measure c"
proof -
  note f = ap_inv_pending(1)[OF inv t] ap_inv_pending(2)[OF inv t refl]
  have o: "\<And>k. k \<noteq> PlanInterval \<Longrightarrow> timers c k = None"
    using f(2) by (simp add: pending_within_def)
  have rs: "reveal_sum n (timers (ap_fire PlanInterval d c)) = reveal_sum n (timers c)" for n
    by (rule reveal_sum_cong) (use f in \<open>simp add: ap_plan_update_def machine_ops\<close>)
  show ?thesis
  proof (cases "planIndex c \<ge> 4")
    case True
    have "ap_inv (ap_fire PlanInterval d c)"
      by (rule ap_invI(2))
         (use f True o in \<open>simp_all add: ap_plan_update_def planningSteps_def machine_ops
            pends_def pending_within_def\<close>)
    moreover have "ap_measure (ap_fire PlanInterval d c) < ap_measure c"
      unfolding ap_measure_def Let_def ap_fire_plans rs
      using f True o t
      by (auto simp add: ap_plan_update_def planningSteps_def machine_ops pends_def)
    ultimately show ?thesis ..
  next
    case False
    have "ap_inv (ap_fire PlanInterval d c)"
      by (rule ap_invI(1))
         (use f False o in \<open>simp_all add: ap_plan_update_def planningSteps_def machine_ops
            pends_def pending_within_def\<close>)
    moreover have "ap_measure (ap_fire PlanInterval d c) < ap_measure c"
      unfolding ap_measure_def Let_def ap_fire_plans rs
      using f False o t
      by (auto simp add: ap_plan_update_def planningSteps_def machine_ops pends_def)
    ultimately show ?thesis ..
  qed
qed
lemma pending_withinD: "pending_within K c \<Longrightarrow> timers c k = Some d \<Longrightarrow> k \<in> K"
  unfolding pending_within_def by force

lemma ap_step_ToGenerating:
  assumes inv: "ap_inv c" and t: "timers c ToGenerating = Some d"
  shows "ap_inv (ap_fire ToGenerating d c) \<and> ap_measure (ap_fire ToGenerating d c) < ap_measure c"
proof -
  note f = ap_inv_pending(1)[OF inv t] ap_inv_pending(3)[OF inv t refl]
  have o: "\<And>k. k \<noteq> ToGenerating \<Longrightarrow> timers c k = None"
    using f(2) by (simp add: pending_within_def)
  let ?n = "length (ap_actionPlans c)"
  have n: "?n \<ge> 1" using actionPlans_nonempty[of "ap_apiData (ap_props c)"]
    by (simp add: ap_actionPlans_def Suc_leI)
  define c' where "c' = ap_fire ToGenerating d c"
  have ts: "timers c' =
      (\<lambda>k. case k of Reveal i \<Rightarrow> if i < ?n then Some (d + i * 1200) else None | _ \<Rightarrow> None)"
    unfolding c'_def using f o
    by (auto simp add: ap_ops machine_ops fun_eq_iff split: action_timer.splits)
  have rest: "calls c' = []" "ap_props c' = ap_props c"
    unfolding c'_def using f by (simp_all add: ap_ops machine_ops)
  have n': "ap_actionPlans c' = ap_actionPlans c" using rest(2) by (simp add: ap_actionPlans_def)
  have "ap_inv c'"
  proof (rule ap_invI(3))
    show "\<not> ap_skipAnimation (ap_props c')" using f(1) rest(2) by simp
    show "calls c' = []" by (rule rest)
    show "pends c' (Reveal (length (ap_actionPlans c') - 1))"
      using n by (simp add: n' ts pends_def)
    show "pending_within (reveals (length (ap_actionPlans c'))) c'"
      by (auto simp add: n' ts pending_within_def reveals_def split: action_timer.splits)
  qed
  moreover have "reveal_sum ?n (timers c') = ?n + 2"
    by (rule reveal_sum_all[OF n]) (simp add: ts)
  moreover have "reveal_sum ?n (timers c) = 0"
    by (rule reveal_sum_none) (simp add: o)
  ultimately have "ap_inv c' \<and> ap_measure c' < ap_measure c"
    using t o by (simp add: ap_measure_def Let_def pends_def ts n')
  then show ?thesis by (simp only: c'_def)
qed

lemma ap_inv_Reveal:
  assumes "ap_inv c" and t: "timers c (Reveal i) = Some d"
  shows "i < length (ap_actionPlans c)"
    and "i = length (ap_actionPlans c) - 1 \<Longrightarrow>
           calls c = [] \<and> pending_within (reveals (length (ap_actionPlans c))) c"
    and "timers c PlanInterval = None" and "timers c ToGenerating = None"
proof -
  let ?n = "length (ap_actionPlans c)"
  note D = pending_withinD[OF _ t]
  from assms(1) have
    "pending_within {PlanInterval} c \<or> pending_within {ToGenerating} c
     \<or> calls c = [] \<and> pending_within (reveals ?n) c
     \<or> pending_within (insert AP_ToComplete (reveals (?n - 1))) c
     \<or> pending_within (insert AP_ToSignal (reveals (?n - 1))) c
     \<or> pending_within (reveals (?n - 1)) c"
    unfolding ap_inv_def Let_def by blast
  then have "(calls c = [] \<and> pending_within (reveals ?n) c \<and> i < ?n \<or> i < ?n - 1) \<and>
    timers c PlanInterval = None \<and> timers c ToGenerating = None"
  proof (elim disjE conjE)
    assume "pending_within {PlanInterval} c"
    from D[OF this] show ?thesis by simp
  next
    assume "pending_within {ToGenerating} c"
    from D[OF this] show ?thesis by simp
  next
    assume a: "calls c = []" "pending_within (reveals ?n) c"
    from D[OF a(2)] a show ?thesis by (auto simp: reveals_def pending_within_def)
  next
    assume a: "pending_within (insert AP_ToComplete (reveals (?n - 1))) c"
    from D[OF a] a show ?thesis by (auto simp: reveals_def pending_within_def)
  next
    assume a: "pending_within (insert AP_ToSignal (reveals (?n - 1))) c"
    from D[OF a] a show ?thesis by (auto simp: reveals_def pending_within_def)
  next
    assume a: "pending_within (reveals (?n - 1)) c"
    from D[OF a] a show ?thesis by (auto simp: reveals_def pending_within_def)
  qed
  then show "i < ?n" and "i = ?n - 1 \<Longrightarrow> calls c = [] \<and> pending_within (reveals ?n) c"
    and "timers c PlanInterval = None" and "timers c ToGenerating = None"
    by auto
qed

lemma ap_inv_beside:
  assumes inv: "ap_inv c" and t: "timers c (Reveal i) = Some d"
    and i: "i \<noteq> length (ap_actionPlans c) - 1"
    and same: "\<And>k. k \<noteq> Reveal i \<Longrightarrow> timers c' k = timers c k"
    and rest: "calls c' = calls c" "ap_props c' = ap_props c"
  shows "ap_inv c'"
proof -
  let ?n = "length (ap_actionPlans c)"
  have n': "ap_actionPlans c' = ap_actionPlans c" using rest(2) by (simp add: ap_actionPlans_def)
  have p: "\<And>k. k \<noteq> Reveal i \<Longrightarrow> pends c' k = pends c k"
    using same by (simp add: pends_def)
  have w: "\<And>K. Reveal i \<in> K \<or> timers c' (Reveal i) = None \<Longrightarrow> pending_within K c \<Longrightarrow> pending_within K c'"
    using same unfolding pending_within_def by metis
  have r: "Reveal i \<in> reveals ?n" using ap_inv_Reveal(1)[OF inv t] by (simp add: reveals_def)
  have s: "\<not> ap_skipAnimation (ap_props c')" using inv rest(2) by (simp add: ap_inv_def Let_def)
  from inv t have
    "calls c = [] \<and> pends c (Reveal (?n - 1)) \<and> pending_within (reveals ?n) c
     \<or> calls c = [] \<and> pends c AP_ToComplete \<and>
        pending_within (insert AP_ToComplete (reveals (?n - 1))) c \<and> Reveal i \<in> reveals (?n - 1)
     \<or> calls c = [] \<and> pends c AP_ToSignal \<and>
        pending_within (insert AP_ToSignal (reveals (?n - 1))) c \<and> Reveal i \<in> reveals (?n - 1)
     \<or> calls c = [allTasks (ap_actionPlans c)] \<and> pending_within (reveals (?n - 1)) c \<and>
        Reveal i \<in> reveals (?n - 1)"
    unfolding ap_inv_def pending_within_def pends_def Let_def by auto
  then show ?thesis
  proof (elim disjE conjE)
    assume a: "calls c = []" "pends c (Reveal (?n - 1))" "pending_within (reveals ?n) c"
    show ?thesis
      by (rule ap_invI(3)[OF s]) (use a p i w[of "reveals ?n"] r rest n' in simp_all)
  next
    assume a: "calls c = []" "pends c AP_ToComplete"
      "pending_within (insert AP_ToComplete (reveals (?n - 1))) c" "Reveal i \<in> reveals (?n - 1)"
    show ?thesis
      by (rule ap_invI(4)[OF s])
         (use a p w[of "insert AP_ToComplete (reveals (?n - 1))"] rest n' in simp_all)
  next
    assume a: "calls c = []" "pends c AP_ToSignal"
      "pending_within (insert AP_ToSignal (reveals (?n - 1))) c" "Reveal i \<in> reveals (?n - 1)"
    show ?thesis
      by (rule ap_invI(5)[OF s])
         (use a p w[of "insert AP_ToSignal (reveals (?n - 1))"] rest n' in simp_all)
  next
    assume a: "calls c = [allTasks (ap_actionPlans c)]" "pending_within (reveals (?n - 1)) c"
      "Reveal i \<in> reveals (?n - 1)"
    show ?thesis
      by (rule ap_invI(6)[OF s]) (use a w[of "reveals (?n - 1)"] rest n' in simp_all)
  qed
qed

lemma ap_step_Reveal:
  assumes inv: "ap_inv c" and t: "timers c (Reveal i) = Some d"
  shows "ap_inv (ap_fire (Reveal i) d c) \<and> ap_measure (ap_fire (Reveal i) d c) < ap_measure c"
proof -
  let ?n = "length (ap_actionPlans c)"
  define c' where "c' = ap_fire (Reveal i) d c"
  note s = ap_inv_pending(1)[OF inv t]
  note lt = ap_inv_Reveal(1)[OF inv t]
  have props: "ap_props c' = ap_props c" unfolding c'_def by (rule ap_fire_keeps)
  have n': "ap_actionPlans c' = ap_actionPlans c" using props by (simp add: ap_actionPlans_def)
  have "ap_inv c' \<and> ap_measure c' < ap_measure c"
  proof (cases "i = ?n - 1")
    case True
    note f = ap_inv_Reveal(2)[OF inv t True]
    have o: "\<And>k. k \<notin> reveals ?n \<Longrightarrow> timers c k = None"
      using f by (simp add: pending_within_def)
    have o': "timers c AP_ToComplete = None" "timers c AP_ToSignal = None"
      "timers c PlanInterval = None" "timers c ToGenerating = None"
      using o by (auto simp: reveals_def)
    have ts: "timers c' = (timers c)(Reveal i := None, AP_ToComplete \<mapsto> d + 800)"
      unfolding c'_def using True
      by (simp add: Let_def ap_reveal_def ap_actionPlans_def machine_ops)
    have rest: "calls c' = []"
      unfolding c'_def using f by (simp add: Let_def ap_reveal_def ap_actionPlans_def machine_ops)
    have "ap_inv c'"
    proof (rule ap_invI(4))
      show "\<not> ap_skipAnimation (ap_props c')" using s props by simp
      show "calls c' = []" by (rule rest)
      show "pends c' AP_ToComplete" by (simp add: ts pends_def)
      show "pending_within (insert AP_ToComplete (reveals (length (ap_actionPlans c') - 1))) c'"
        unfolding pending_within_def ts n'
      proof (intro allI impI)
        fix k assume k: "k \<notin> insert AP_ToComplete (reveals (?n - 1))"
        show "((timers c)(Reveal i := None, AP_ToComplete \<mapsto> d + 800)) k = None"
        proof (cases "k = Reveal i")
          case False
          have "k \<notin> reveals ?n"
          proof
            assume "k \<in> reveals ?n"
            then obtain j where j: "k = Reveal j" "j < ?n" by (auto simp: reveals_def)
            with False True have "j < ?n - 1" by auto
            with j k show False by (simp add: reveals_def)
          qed
          with o k False show ?thesis by simp
        qed (use k in simp)
      qed
    qed
    moreover have "reveal_sum ?n (timers c') + (if i = ?n - 1 then 3 else 1) = reveal_sum ?n (timers c)"
      by (rule reveal_sum_remove[of i _ "timers c" d]) (use lt t in \<open>simp_all add: ts\<close>)
    then have "ap_measure c' < ap_measure c"
      using True o' by (simp add: ap_measure_def Let_def pends_def ts n')
    ultimately show ?thesis ..
  next
    case False
    have ts: "timers c' = (timers c)(Reveal i := None)"
      unfolding c'_def using False
      by (simp add: Let_def ap_reveal_def ap_actionPlans_def machine_ops)
    have rest: "calls c' = calls c"
      unfolding c'_def using False
      by (simp add: Let_def ap_reveal_def ap_actionPlans_def machine_ops)
    have "ap_inv c'"
      by (rule ap_inv_beside[OF inv t False]) (simp_all add: ts rest props)
    moreover have "reveal_sum ?n (timers c') + (if i = ?n - 1 then 3 else 1) = reveal_sum ?n (timers c)"
      by (rule reveal_sum_remove[of i _ "timers c" d]) (use lt t in \<open>simp_all add: ts\<close>)
    then have "ap_measure c' < ap_measure c"
      using False ap_inv_Reveal(3,4)[OF inv t]
      by (simp add: ap_measure_def Let_def pends_def ts n')
    ultimately show ?thesis ..
  qed
  then show ?thesis by (simp only: c'_def)
qed

lemma ap_step_ToComplete:
  assumes inv: "ap_inv c" and t: "timers c AP_ToComplete = Some d"
  shows "ap_inv (ap_fire AP_ToComplete d c) \<and> ap_measure (ap_fire AP_ToComplete d c) < ap_measure c"
proof -
  let ?n = "length (ap_actionPlans c)"
  define c' where "c' = ap_fire AP_ToComplete d c"
  note f = ap_inv_pending(1)[OF inv t] ap_inv_pending(4)[OF inv t refl]
  have o: "\<And>k. k \<noteq> AP_ToComplete \<Longrightarrow> k \<notin> reveals (?n - 1) \<Longrightarrow> timers c k = None"
    using f(2) by (simp add: pending_within_def)
  have o': "timers c AP_ToSignal = None" "timers c PlanInterval = None" "timers c ToGenerating = None"
    using o by (auto simp: reveals_def)
  have props: "ap_props c' = ap_props c" unfolding c'_def by (rule ap_fire_keeps)
  have n': "ap_actionPlans c' = ap_actionPlans c" using props by (simp add: ap_actionPlans_def)
  have ts: "timers c' AP_ToSignal = Some (d + 1000)" "timers c' AP_ToComplete = None"
    "timers c' PlanInterval = None" "timers c' ToGenerating = None"
    "\<And>i. timers c (Reveal i) = None \<Longrightarrow> timers c' (Reveal i) = None"
    unfolding c'_def using o' by (simp_all add: Let_def ap_ops machine_ops)
  have rest: "calls c' = []"
    unfolding c'_def using f by (simp add: Let_def ap_ops machine_ops)
  have "ap_inv c'"
  proof (rule ap_invI(5))
    show "\<not> ap_skipAnimation (ap_props c')" using f(1) props by simp
    show "calls c' = []" by (rule rest)
    show "pends c' AP_ToSignal" by (simp add: ts pends_def)
    show "pending_within (insert AP_ToSignal (reveals (length (ap_actionPlans c') - 1))) c'"
      unfolding pending_within_def n'
    proof (intro allI impI)
      fix k assume k: "k \<notin> insert AP_ToSignal (reveals (?n - 1))"
      show "timers c' k = None"
      proof (cases k)
        case (Reveal i)
        with k o have "timers c (Reveal i) = None" by simp
        with Reveal show ?thesis by (simp add: ts)
      qed (use k ts in simp_all)
    qed
  qed
  moreover have "reveal_sum ?n (timers c') \<le> reveal_sum ?n (timers c)"
    by (rule reveal_sum_mono) (simp add: ts)
  then have "ap_measure c' < ap_measure c"
    using t o' by (simp add: ap_measure_def Let_def pends_def ts n')
  ultimately show ?thesis by (simp only: c'_def)
qed

lemma ap_step_ToSignal:
  assumes inv: "ap_inv c" and t: "timers c AP_ToSignal = Some d"
  shows "ap_inv (ap_fire AP_ToSignal d c) \<and> ap_measure (ap_fire AP_ToSignal d c) < ap_measure c"
proof -
  let ?n = "length (ap_actionPlans c)"
  define c' where "c' = ap_fire AP_ToSignal d c"
  note f = ap_inv_pending(1)[OF inv t] ap_inv_pending(5)[OF inv t refl]
  have o: "\<And>k. k \<noteq> AP_ToSignal \<Longrightarrow> k \<notin> reveals (?n - 1) \<Longrightarrow> timers c k = None"
    using f(2) by (simp add: pending_within_def)
  have o': "timers c AP_ToComplete = None" "timers c PlanInterval = None" "timers c ToGenerating = None"
    using o by (auto simp: reveals_def)
  have props: "ap_props c' = ap_props c" unfolding c'_def by (rule ap_fire_keeps)
  have n': "ap_actionPlans c' = ap_actionPlans c" using props by (simp add: ap_actionPlans_def)
  have ts: "timers c' = (timers c)(AP_ToSignal := None)"
    unfolding c'_def by (simp add: Let_def machine_ops)
  have rest: "calls c' = [allTasks (ap_actionPlans c)]"
    unfolding c'_def using f by (simp add: Let_def machine_ops ap_actionPlans_def)
  have "ap_inv c'"
  proof (rule ap_invI(6))
    show "\<not> ap_skipAnimation (ap_props c')" using f(1) props by simp
    show "calls c' = [allTasks (ap_actionPlans c')]" using rest n' by simp
    show "pending_within (reveals (length (ap_actionPlans c') - 1)) c'"
      using o by (simp add: pending_within_def ts n')
  qed
  moreover have "reveal_sum ?n (timers c') = reveal_sum ?n (timers c)"
    by (rule reveal_sum_cong) (simp add: ts)
  then have "ap_measure c' < ap_measure c"
    using t o' by (simp add: ap_measure_def Let_def pends_def ts n')
  ultimately show ?thesis by (simp only: c'_def)
qed

lemma ap_step:
  assumes "ap_inv c" and "timers c k = Some d"
  shows "ap_inv (ap_fire k d c) \<and> ap_measure (ap_fire k d c) < ap_measure c"
  using assms ap_step_Plan ap_step_ToGenerating ap_step_Reveal ap_step_ToComplete ap_step_ToSignal
  by (cases k) blast+
lemma ap_pending_listed:
  assumes "ap_inv c" and "timers c k = Some d"
  shows "k \<in> set (action_timers c)"
proof (cases k)
  case (Reveal i)
  with ap_inv_Reveal(1)[of c i d] assms show ?thesis by (simp add: action_timers_def)
qed (simp_all add: action_timers_def)

lemma ap_not_quiet:
  assumes "ap_inv c" and "\<not> quiet c"
  obtains k d where "earliest (action_timers c) (timers c) = Some (k, d)" "timers c k = Some d"
proof (cases "earliest (action_timers c) (timers c)")
  case None
  from assms(2) obtain k d where kd: "timers c k = Some d" by (auto simp: quiet_def)
  from earliest_NoneD[OF None ap_pending_listed[OF assms(1) kd]] kd show ?thesis by simp
next
  case (Some kd)
  obtain k d where kd: "kd = (k, d)" by (cases kd)
  with Some have "timers c k = Some d"
    using earliest_SomeD[of "action_timers c" "timers c" k d] by simp
  with Some kd show ?thesis using that by simp
qed

lemma ap_advance_quiet: "quiet c \<Longrightarrow> ap_advance c = c"
proof -
  assume q: "quiet c"
  have "earliest (action_timers c) (timers c) = None"
  proof (cases "earliest (action_timers c) (timers c)")
    case (Some kd)
    then have "timers c (fst kd) = Some (snd kd)"
      using earliest_SomeD[of "action_timers c" "timers c" "fst kd" "snd kd"] by simp
    with q show ?thesis by (simp add: quiet_def)
  qed simp
  then show ?thesis by (simp add: ap_advance_def)
qed

lemma ap_advance_step:
  assumes "ap_inv c" and "\<not> quiet c"
  shows "ap_inv (ap_advance c) \<and> ap_measure (ap_advance c) < ap_measure c"
proof -
  from assms obtain k d where
    "earliest (action_timers c) (timers c) = Some (k, d)" "timers c k = Some d"
    by (rule ap_not_quiet)
  then show ?thesis using ap_step[OF assms(1)] by (simp add: ap_advance_def)
qed

lemma ap_advance_inv: "ap_inv c \<Longrightarrow> ap_inv (ap_advance c)"
  using ap_advance_step ap_advance_quiet by (cases "quiet c") auto

lemma ap_advance_keeps [simp]: "ap_actionPlans (ap_advance c) = ap_actionPlans c"
  by (simp add: ap_advance_def split: option.splits)

lemma ap_run_keeps [simp]: "ap_actionPlans ((ap_advance ^^ n) c) = ap_actionPlans c"
  by (induction n) simp_all

lemma ap_inv_calls: "ap_inv c \<Longrightarrow> calls c = [] \<or> calls c = [allTasks (ap_actionPlans c)]"
  unfolding ap_inv_def Let_def by blast

lemma ap_inv_quiet: "ap_inv c \<Longrightarrow> quiet c \<Longrightarrow> calls c = [allTasks (ap_actionPlans c)]"
  by (auto simp: ap_inv_def Let_def quiet_def pends_def)

lemma ap_runs_to_signal:
  assumes "ap_inv c"
  shows "\<exists>n. quiet ((ap_advance ^^ n) c) \<and>
    calls ((ap_advance ^^ n) c) = [allTasks (ap_actionPlans c)]"
proof -
  from run_until[of ap_inv quiet ap_advance ap_measure, OF ap_advance_step assms]
  obtain n where "quiet ((ap_advance ^^ n) c)" "ap_inv ((ap_advance ^^ n) c)" by blast
  then show ?thesis using ap_inv_quiet by fastforce
qed

lemma ap_at_most_one:
  assumes "ap_inv c"
  shows "calls ((ap_advance ^^ n) c) = [] \<or>
    calls ((ap_advance ^^ n) c) = [allTasks (ap_actionPlans c)]"
  using ap_inv_calls[OF holds_along[of ap_inv ap_advance, OF ap_advance_inv assms, of n]] by simp

lemma ActionPlanner_scripted:
  assumes "\<not> ap_skipAnimation props" and "ap_isActive props"
  shows "ap_inv (ActionPlanner props) \<and> pends (ActionPlanner props) PlanInterval \<and>
    ap_actionPlans (ActionPlanner props) = actionPlans (ap_apiData props)"
  using assms
  by (simp add: ActionPlanner_def Let_def ap_generating_effect_def ap_actionPlans_def machine_ops
      ap_inv_def pends_def pending_within_def)

lemma ActionPlanner_immediate:
  assumes "ap_skipAnimation props"
  shows "quiet (ActionPlanner props) \<and> calls (ActionPlanner props) = [] \<and>
    visiblePlans (ActionPlanner props) = actionPlans (ap_apiData props)"
  using assms actionPlans_nonempty[of "ap_apiData props"]
  by (simp add: ActionPlanner_def Let_def ap_generating_effect_def ap_actionPlans_def machine_ops
      quiet_def)

text \<open>Up to the reveal of the last plan, 800 ms before the phase becomes complete.\<close>

lemma ap_reaches_revealed:
  assumes "ap_inv c" and "pends c PlanInterval"
  shows "\<exists>k. ap_inv ((ap_advance ^^ k) c) \<and> mounted ((ap_advance ^^ k) c) \<and>
    ap_phase ((ap_advance ^^ k) c) = Generating \<and> calls ((ap_advance ^^ k) c) = [] \<and>
    pends ((ap_advance ^^ k) c) AP_ToComplete"
proof -
  let ?Q = "\<lambda>c. mounted c \<and> ap_phase c = Generating \<and> calls c = [] \<and> pends c AP_ToComplete"
  let ?T = "\<lambda>c. mounted c \<and> ap_phase c = Generating \<and>
    pends c (Reveal (length (ap_actionPlans c) - 1))"
  let ?I = "\<lambda>c. ap_inv c \<and> (pends c PlanInterval \<or> pends c ToGenerating \<or> ?T c \<or> ?Q c)"
  have step: "?I (ap_advance c) \<and> ap_measure (ap_advance c) < ap_measure c" if "?I c" "\<not> ?Q c" for c
  proof -
    from that have inv: "ap_inv c" and p: "pends c PlanInterval \<or> pends c ToGenerating \<or> ?T c"
      by blast+
    from p have nq: "\<not> quiet c" by (auto simp: quiet_def pends_def)
    from inv nq obtain k d where
      e: "earliest (action_timers c) (timers c) = Some (k, d)" "timers c k = Some d"
      by (rule ap_not_quiet)
    note s = ap_step[OF inv e(2)]
    define c' where "c' = ap_fire k d c"
    have n': "ap_actionPlans c' = ap_actionPlans c" unfolding c'_def by (rule ap_fire_plans)
    have "pends c' PlanInterval \<or> pends c' ToGenerating \<or> ?T c' \<or> ?Q c'"
      using p
    proof (elim disjE)
      assume "pends c PlanInterval"
      then obtain d' where d': "timers c PlanInterval = Some d'" by (auto simp: pends_def)
      note f = ap_inv_pending(2)[OF inv d' refl]
      then have k: "k = PlanInterval" using e(2) by (auto simp: pending_within_def)
      have "pends c' PlanInterval \<or> pends c' ToGenerating"
        unfolding c'_def k using f
        by (cases "planIndex c \<ge> 4")
           (simp_all add: ap_plan_update_def planningSteps_def machine_ops pends_def)
      then show ?thesis by blast
    next
      assume "pends c ToGenerating"
      then obtain d' where d': "timers c ToGenerating = Some d'" by (auto simp: pends_def)
      note f = ap_inv_pending(1)[OF inv d'] ap_inv_pending(3)[OF inv d' refl]
      then have k: "k = ToGenerating" using e(2) by (auto simp: pending_within_def)
      have n: "length (ap_actionPlans c) \<ge> 1"
        using actionPlans_nonempty[of "ap_apiData (ap_props c)"]
        by (simp add: ap_actionPlans_def Suc_leI)
      have "mounted c' \<and> ap_phase c' = Generating"
        unfolding c'_def k using f by (simp add: ap_ops machine_ops)
      moreover have "timers c' (Reveal (length (ap_actionPlans c) - 1)) \<noteq> None"
        unfolding c'_def k using f n actionPlans_nonempty[of "ap_apiData (ap_props c)"]
        by (simp add: ap_ops machine_ops)
      ultimately have "?T c'" by (simp add: pends_def n')
      then show ?thesis by blast
    next
      assume T: "?T c"
      then obtain d' where d': "timers c (Reveal (length (ap_actionPlans c) - 1)) = Some d'"
        by (auto simp: pends_def)
      note f = ap_inv_Reveal(2)[OF inv d' refl]
      from pending_withinD[OF conjunct2[OF f] e(2)] obtain i where
        i: "k = Reveal i" by (auto simp: reveals_def)
      have mp: "mounted c' \<and> ap_phase c' = Generating \<and> calls c' = []"
        unfolding c'_def i using T f
        by (simp add: Let_def ap_reveal_def ap_actionPlans_def machine_ops)
      show ?thesis
      proof (cases "i = length (ap_actionPlans c) - 1")
        case True
        have "timers c' AP_ToComplete \<noteq> None"
          unfolding c'_def i using True
          by (simp add: Let_def ap_reveal_def ap_actionPlans_def machine_ops)
        with mp show ?thesis by (simp add: pends_def)
      next
        case False
        have "timers c' (Reveal (length (ap_actionPlans c) - 1)) = Some d'"
          unfolding c'_def i using False d'
          by (simp add: Let_def ap_reveal_def ap_actionPlans_def machine_ops)
        with mp show ?thesis by (simp add: pends_def n')
      qed
    qed
    with s have "?I c' \<and> ap_measure c' < ap_measure c" unfolding c'_def by blast
    then show ?thesis using e(1) by (simp add: ap_advance_def c'_def)
  qed
  from run_until[of ?I ?Q ap_advance ap_measure c] step assms
  obtain n where "?Q ((ap_advance ^^ n) c)" "?I ((ap_advance ^^ n) c)" by blast
  then show ?thesis by blast
qed

lemma ap_unmount_inv:
  assumes "ap_inv c" and "pends c AP_ToComplete"
  shows "ap_inv (ap_unmount c) \<and> ap_actionPlans (ap_unmount c) = ap_actionPlans c"
proof -
  from assms(2) obtain d where d: "timers c AP_ToComplete = Some d" by (auto simp: pends_def)
  note f = ap_inv_pending(1)[OF assms(1) d] ap_inv_pending(4)[OF assms(1) d refl]
  define c' where "c' = ap_unmount c"
  have props: "ap_props c' = ap_props c"
    unfolding c'_def by (simp add: ap_unmount_def ap_ops machine_ops)
  have n': "ap_actionPlans c' = ap_actionPlans c" using props by (simp add: ap_actionPlans_def)
  have ts: "timers c' AP_ToComplete = Some d"
    "\<And>k. timers c k = None \<Longrightarrow> timers c' k = None"
    unfolding c'_def using d
    by (auto simp add: ap_unmount_def ap_ops machine_ops split: action_timer.splits)
  have cs: "calls c' = []"
    unfolding c'_def using f by (simp add: ap_unmount_def ap_ops machine_ops)
  have "ap_inv c'"
  proof (rule ap_invI(4))
    show "\<not> ap_skipAnimation (ap_props c')" using f(1) props by simp
    show "calls c' = []" by (rule cs)
    show "pends c' AP_ToComplete" by (simp add: ts pends_def)
    show "pending_within (insert AP_ToComplete (reveals (length (ap_actionPlans c') - 1))) c'"
      using f(2) ts(2) unfolding pending_within_def n' by blast
  qed
  then show ?thesis using n' by (simp add: c'_def)
qed

lemma ActionPlanner_stale_signal:
  assumes "\<not> ap_skipAnimation props" and "ap_isActive props"
  shows "\<exists>k n. mounted ((ap_advance ^^ k) (ActionPlanner props)) \<and>
     ap_phase ((ap_advance ^^ k) (ActionPlanner props)) = Generating \<and>
     calls ((ap_advance ^^ k) (ActionPlanner props)) = [] \<and>
     calls ((ap_advance ^^ n) (ap_unmount ((ap_advance ^^ k) (ActionPlanner props))))
       = [allTasks (actionPlans (ap_apiData props))]"
proof -
  note i = ActionPlanner_scripted[OF assms]
  from ap_reaches_revealed[of "ActionPlanner props"] i obtain k where
    k: "ap_inv ((ap_advance ^^ k) (ActionPlanner props))"
       "mounted ((ap_advance ^^ k) (ActionPlanner props))"
       "ap_phase ((ap_advance ^^ k) (ActionPlanner props)) = Generating"
       "calls ((ap_advance ^^ k) (ActionPlanner props)) = []"
       "pends ((ap_advance ^^ k) (ActionPlanner props)) AP_ToComplete" by blast
  from ap_unmount_inv[OF k(1) k(5)] i have
    u: "ap_inv (ap_unmount ((ap_advance ^^ k) (ActionPlanner props)))"
       "ap_actionPlans (ap_unmount ((ap_advance ^^ k) (ActionPlanner props)))
          = actionPlans (ap_apiData props)" by simp_all
  from ap_runs_to_signal[OF u(1)] u(2) obtain n where
    "calls ((ap_advance ^^ n) (ap_unmount ((ap_advance ^^ k) (ActionPlanner props))))
       = [allTasks (actionPlans (ap_apiData props))]" by auto
  with k show ?thesis by blast
qed

subsection \<open>Unmounting an animator before its script is complete\<close>

text \<open>
  Where the cleanup functions do cancel: the Risk Analyzer while it scans or types, the
  Score Manager while it evaluates, the Action Planner while it plans or while the timeout
  of its last plan is pending. After the unmount no timer is pending, and no call follows.
\<close>

lemma ra_unmount_cancels:
  "pending_within {ScanInterval, TypeInterval} c \<Longrightarrow>
   quiet (ra_unmount c) \<and> calls (ra_unmount c) = calls c"
  by (auto simp add: ra_unmount_def machine_ops quiet_def pending_within_def)

lemma sm_unmount_cancels:
  "pending_within {EvalInterval} c \<Longrightarrow> quiet (sm_unmount c) \<and> calls (sm_unmount c) = calls c"
  by (auto simp add: sm_unmount_def machine_ops quiet_def pending_within_def)

lemma ap_unmount_cancels:
  assumes "pending_within (insert PlanInterval (reveals (length (ap_actionPlans c)))) c"
  shows "quiet (ap_unmount c) \<and> calls (ap_unmount c) = calls c"
proof -
  have "timers (ap_unmount c) k = None" for k
  proof (cases k)
    case (Reveal i)
    then show ?thesis
      using assms
      by (cases "i < length (ap_actionPlans c)")
         (auto simp add: ap_unmount_def ap_ops machine_ops pending_within_def reveals_def)
  qed (use assms in \<open>auto simp add: ap_unmount_def ap_ops machine_ops pending_within_def
         reveals_def\<close>)
  then show ?thesis by (simp add: quiet_def ap_unmount_def ap_ops machine_ops)
qed

lemma quiet_stays:
  "quiet c \<Longrightarrow> (ra_advance ^^ n) c = c"
  "quiet c2 \<Longrightarrow> (sm_advance ^^ n) c2 = c2"
  "quiet c3 \<Longrightarrow> (ap_advance ^^ n) c3 = c3"
  by (simp_all add: advance_fixed ra_advance_quiet sm_advance_quiet ap_advance_quiet)



subsection \<open>Signals per activation\<close>

lemma settles:
  assumes "Q ((adv ^^ n) c)" and "\<And>c. Q c \<Longrightarrow> adv c = c" and "n \<le> m"
  shows "(adv ^^ m) c = (adv ^^ n) c"
proof -
  have "adv ((adv ^^ n) c) = (adv ^^ n) c" using assms(1,2) by blast
  then have "(adv ^^ (m - n)) ((adv ^^ n) c) = (adv ^^ n) c"
    using advance_fixed[where adv = adv and c = "(adv ^^ n) c" and n = "m - n"] by simp
  then show ?thesis using run_from[OF assms(3), where adv = adv and c = c] by simp
qed

lemma ra_exactly_one:
  assumes "ra_inv c"
  shows "(\<exists>n. \<forall>m\<ge>n. quiet ((ra_advance ^^ m) c) \<and>
            calls ((ra_advance ^^ m) c) = [ra_analysisResult c]) \<and>
         (\<forall>m. calls ((ra_advance ^^ m) c) = [] \<or>
              calls ((ra_advance ^^ m) c) = [ra_analysisResult c])"
proof -
  from ra_runs_to_signal[OF assms] obtain n where
    n: "quiet ((ra_advance ^^ n) c) \<and> calls ((ra_advance ^^ n) c) = [ra_analysisResult c]"
    by blast
  have "quiet ((ra_advance ^^ m) c) \<and> calls ((ra_advance ^^ m) c) = [ra_analysisResult c]"
    if "n \<le> m" for m
  proof -
    have "(ra_advance ^^ m) c = (ra_advance ^^ n) c"
      by (rule settles[where Q = quiet, OF conjunct1[OF n] ra_advance_quiet that])
    with n show ?thesis by simp
  qed
  then have "\<exists>n. \<forall>m\<ge>n. quiet ((ra_advance ^^ m) c) \<and>
      calls ((ra_advance ^^ m) c) = [ra_analysisResult c]" by blast
  moreover have "\<forall>m. calls ((ra_advance ^^ m) c) = [] \<or>
      calls ((ra_advance ^^ m) c) = [ra_analysisResult c]"
    using ra_at_most_one[OF assms] by blast
  ultimately show ?thesis by (rule conjI)
qed

lemma sm_exactly_one:
  assumes "sm_inv c"
  shows "(\<exists>n. \<forall>m\<ge>n. quiet ((sm_advance ^^ m) c) \<and>
            calls ((sm_advance ^^ m) c) = [sm_scoreResult c]) \<and>
         (\<forall>m. calls ((sm_advance ^^ m) c) = [] \<or>
              calls ((sm_advance ^^ m) c) = [sm_scoreResult c])"
proof -
  from sm_runs_to_signal[OF assms] obtain n where
    n: "quiet ((sm_advance ^^ n) c) \<and> calls ((sm_advance ^^ n) c) = [sm_scoreResult c]"
    by blast
  have "quiet ((sm_advance ^^ m) c) \<and> calls ((sm_advance ^^ m) c) = [sm_scoreResult c]"
    if "n \<le> m" for m
  proof -
    have "(sm_advance ^^ m) c = (sm_advance ^^ n) c"
      by (rule settles[where Q = quiet, OF conjunct1[OF n] sm_advance_quiet that])
    with n show ?thesis by simp
  qed
  then have "\<exists>n. \<forall>m\<ge>n. quiet ((sm_advance ^^ m) c) \<and>
      calls ((sm_advance ^^ m) c) = [sm_scoreResult c]" by blast
  moreover have "\<forall>m. calls ((sm_advance ^^ m) c) = [] \<or>
      calls ((sm_advance ^^ m) c) = [sm_scoreResult c]"
    using sm_at_most_one[OF assms] by blast
  ultimately show ?thesis by (rule conjI)
qed

lemma ap_exactly_one:
  assumes "ap_inv c"
  shows "(\<exists>n. \<forall>m\<ge>n. quiet ((ap_advance ^^ m) c) \<and>
            calls ((ap_advance ^^ m) c) = [allTasks (ap_actionPlans c)]) \<and>
         (\<forall>m. calls ((ap_advance ^^ m) c) = [] \<or>
              calls ((ap_advance ^^ m) c) = [allTasks (ap_actionPlans c)])"
proof -
  from ap_runs_to_signal[OF assms] obtain n where
    n: "quiet ((ap_advance ^^ n) c) \<and> calls ((ap_advance ^^ n) c) = [allTasks (ap_actionPlans c)]"
    by blast
  have "quiet ((ap_advance ^^ m) c) \<and> calls ((ap_advance ^^ m) c) = [allTasks (ap_actionPlans c)]"
    if "n \<le> m" for m
  proof -
    have "(ap_advance ^^ m) c = (ap_advance ^^ n) c"
      by (rule settles[where Q = quiet, OF conjunct1[OF n] ap_advance_quiet that])
    with n show ?thesis by simp
  qed
  then have "\<exists>n. \<forall>m\<ge>n. quiet ((ap_advance ^^ m) c) \<and>
      calls ((ap_advance ^^ m) c) = [allTasks (ap_actionPlans c)]" by blast
  moreover have "\<forall>m. calls ((ap_advance ^^ m) c) = [] \<or>
      calls ((ap_advance ^^ m) c) = [allTasks (ap_actionPlans c)]"
    using ap_at_most_one[OF assms] by blast
  ultimately show ?thesis by (rule conjI)
qed




end
